theory Spec2Isabelle
  imports Complex_Main "HOL-Library.AList"
begin

section \<open>Stack API: the stack store of \<^verbatim>\<open>src/main.py\<close>\<close>

text \<open>
  The service keeps one process-wide dictionary \<^verbatim>\<open>app.stacks\<close> from stack identifiers
  to entries \<^verbatim>\<open>{"array": array.array("q"), "expiry": float}\<close>. Every handler is
  modelled as a function from the dictionary before the call to the response and the
  dictionary after it, so that what a failing call leaves behind is part of its value.

  What the handlers take from their environment is a parameter of the model:
  \<^item> the builtin \<^verbatim>\<open>int\<close> applied to a query argument is a parameter \<open>int_of\<close>, which
    is \<open>None\<close> where the builtin raises \<^verbatim>\<open>ValueError\<close>; every theorem holds for any
    such function;
  \<^item> each call of \<^verbatim>\<open>time.time()\<close> is a reading supplied by the caller, a real number
    (the rounding of the float addition \<^verbatim>\<open>time.time() + 60 * 60\<close> is not modelled);
  \<^item> the identifier drawn by \<^verbatim>\<open>secrets.token_hex(8)\<close> is a parameter \<open>token\<close>.
\<close>

subsection \<open>Constants and data\<close>

definition MAX_STACK_SIZE :: nat where
  "MAX_STACK_SIZE = 1024 * 100"

definition MAX_STACKS :: nat where
  "MAX_STACKS = 1000"

text \<open>One value of \<^verbatim>\<open>app.stacks\<close>: the array of signed 64-bit integers, whose end is
  the top of the stack, and the expiry time.\<close>

record stack =
  array :: "int list"
  expiry :: real

text \<open>A Python dictionary keeps its keys in insertion order, assignment to a present key
  keeps the key's position, and the expiry sweep and the listing iterate in that order:
  the dictionary is an association list, with \<open>AList.update\<close> for assignment,
  \<open>AList.map_entry\<close> for mutation of a value in place and \<open>AList.delete\<close> for
  \<^verbatim>\<open>del\<close>. The keys of a dictionary are distinct.\<close>

type_synonym stacks = "(int \<times> stack) list"

text \<open>The response of a handler. Every error of the source is a constructor, named after
  its message; \<open>KeyError\<close> and \<open>IndexError\<close> are the uncaught Python exceptions of a
  dictionary lookup and of \<^verbatim>\<open>array.pop\<close> on an empty array.\<close>

datatype error =
    StackIdMustBeInteger        \<comment> \<open>"Stack ID must be an integer", 400\<close>
  | StackNotFound               \<comment> \<open>"Stack not found", 404\<close>
  | MaxStacksReached            \<comment> \<open>"Maximum number of stacks reached (1000)", 400\<close>
  | ValueMustBeInteger          \<comment> \<open>"Value must be an integer", 400\<close>
  | ValueTooLarge               \<comment> \<open>"Value is too large", 400\<close>
  | StackOverflow               \<comment> \<open>"Stack overflow", 400\<close>
  | ValuesMustBeProvided        \<comment> \<open>"Values must be provided", 400\<close>
  | AllValuesMustBeIntegers     \<comment> \<open>"All values must be integers", 400\<close>
  | StackUnderflow              \<comment> \<open>"Stack underflow", 400\<close>
  | CountMustBeInteger          \<comment> \<open>"Count must be an integer", 400\<close>
  | StackIsEmpty                \<comment> \<open>"Stack is empty", 400\<close>
  | KeyError
  | IndexError

text \<open>The successful responses, before they are rendered as text by \<^verbatim>\<open>str\<close> and
  \<^verbatim>\<open>",".join\<close>. The listing carries the number of stacks and the size of each, in
  dictionary order; the percentage that the source derives from each size with float
  arithmetic is not modelled.\<close>

datatype reply =
    ApiIsWorking                \<comment> \<open>"API is working"\<close>
  | Created int                 \<comment> \<open>\<^verbatim>\<open>str(stack_id)\<close>, 201\<close>
  | Ok                          \<comment> \<open>"Ok", 200\<close>
  | Popped int                  \<comment> \<open>\<^verbatim>\<open>str(stack.pop())\<close>, 200\<close>
  | PoppedBulk "int list"       \<comment> \<open>the popped values joined by commas, 200\<close>
  | Size nat                    \<comment> \<open>\<^verbatim>\<open>str(buffer_info()[1])\<close>, 200\<close>
  | Top int                     \<comment> \<open>\<^verbatim>\<open>str(stack[-1])\<close>, 200\<close>
  | Listing nat "nat list"

type_synonym response = "error + reply"

type_synonym args = "string \<rightharpoonup> string"

type_synonym parser = "string \<Rightarrow> int option"

subsection \<open>The builtins the handlers use\<close>

text \<open>\<^verbatim>\<open>int(request.args.get(name))\<close>: \<^verbatim>\<open>TypeError\<close> when the argument is absent,
  \<^verbatim>\<open>ValueError\<close> when it is not a numeral; the handlers catch both together.\<close>

definition py_int :: "parser \<Rightarrow> string option \<Rightarrow> int option" where
  "py_int int_of a = (case a of None \<Rightarrow> None | Some s \<Rightarrow> int_of s)"

text \<open>\<^verbatim>\<open>str.split(sep)\<close> for a separator of one character: the pieces between the
  separators, empty pieces included, never an empty list.\<close>

fun split :: "char \<Rightarrow> string \<Rightarrow> string list" where
  "split sep [] = [[]]"
| "split sep (c # cs) =
     (if c = sep then [] # split sep cs
      else (case split sep cs of [] \<Rightarrow> [[c]] | w # ws \<Rightarrow> (c # w) # ws))"

text \<open>The type code \<^verbatim>\<open>"q"\<close>: a signed integer of 8 bytes.\<close>

definition int64 :: "int \<Rightarrow> bool" where
  "int64 v \<longleftrightarrow> - (2 ^ 63) \<le> v \<and> v < 2 ^ 63"

text \<open>\<^verbatim>\<open>array.append\<close> raises \<^verbatim>\<open>OverflowError\<close> (here \<open>None\<close>) for a value outside the
  range of the type code and leaves the array as it was.\<close>

definition array_append :: "int list \<Rightarrow> int \<Rightarrow> int list option" where
  "array_append xs v = (if int64 v then Some (xs @ [v]) else None)"

text \<open>\<^verbatim>\<open>array.pop()\<close> removes and returns the last item; \<^verbatim>\<open>IndexError\<close> (here \<open>None\<close>)
  on an empty array.\<close>

definition array_pop :: "int list \<Rightarrow> (int \<times> int list) option" where
  "array_pop xs = (if xs = [] then None else Some (last xs, butlast xs))"

text \<open>Mutation of the array object held by the entry of \<open>stack_id\<close>: the entry keeps its
  place in the dictionary and its expiry.\<close>

definition set_array :: "int \<Rightarrow> int list \<Rightarrow> stacks \<Rightarrow> stacks" where
  "set_array stack_id xs st = AList.map_entry stack_id (\<lambda>e. e\<lparr>array := xs\<rparr>) st"

subsection \<open>Expiry\<close>

text \<open>\<^verbatim>\<open>app.stacks[stack_id]["expiry"] = time.time() + 60 * 60\<close>, with \<open>now\<close> the reading of
  the clock; \<^verbatim>\<open>KeyError\<close> (here \<open>None\<close>) for an absent identifier.\<close>

definition refresh_stack_expiry :: "real \<Rightarrow> int \<Rightarrow> stacks \<Rightarrow> stacks option" where
  "refresh_stack_expiry now stack_id st =
     (case map_of st stack_id of
        None \<Rightarrow> None
      | Some _ \<Rightarrow> Some (AList.map_entry stack_id (\<lambda>e. e\<lparr>expiry := now + 60 * 60\<rparr>) st))"

text \<open>The loop of \<^verbatim>\<open>remove_expired_stacks\<close> over the snapshot \<^verbatim>\<open>list(app.stacks.items())\<close>.
  The source calls \<^verbatim>\<open>time.time()\<close> in the loop's test, once for every item: \<open>tick i\<close> is
  the reading of the \<open>i\<close>-th call.\<close>

fun sweep_loop :: "(nat \<Rightarrow> real) \<Rightarrow> nat \<Rightarrow> (int \<times> stack) list \<Rightarrow> stacks \<Rightarrow> stacks" where
  "sweep_loop tick i [] st = st"
| "sweep_loop tick i ((stack_id, s) # items) st =
     sweep_loop tick (Suc i) items
       (if expiry s < tick i then AList.delete stack_id st else st)"

definition remove_expired_stacks :: "(nat \<Rightarrow> real) \<Rightarrow> stacks \<Rightarrow> stacks" where
  "remove_expired_stacks tick st = sweep_loop tick 0 st st"

definition before_request :: "(nat \<Rightarrow> real) \<Rightarrow> stacks \<Rightarrow> stacks" where
  "before_request tick st = remove_expired_stacks tick st"

subsection \<open>The decorator\<close>

text \<open>\<^verbatim>\<open>require_valid_stack_id\<close> wraps a handler \<open>func\<close>: it parses the identifier, looks
  it up, refreshes the expiry of the entry and only then runs the handler.\<close>

definition require_valid_stack_id ::
  "parser \<Rightarrow> (int \<Rightarrow> stacks \<Rightarrow> response \<times> stacks) \<Rightarrow> args \<Rightarrow> real \<Rightarrow> stacks \<Rightarrow> response \<times> stacks"
where
  "require_valid_stack_id int_of func args now st =
     (case py_int int_of (args ''id'') of
        None \<Rightarrow> (Inl StackIdMustBeInteger, st)
      | Some stack_id \<Rightarrow>
          if map_of st stack_id = None then (Inl StackNotFound, st)
          else (case refresh_stack_expiry now stack_id st of
                  None \<Rightarrow> (Inl KeyError, st)
                | Some st' \<Rightarrow> func stack_id st'))"

subsection \<open>The handlers\<close>

definition home :: "stacks \<Rightarrow> response \<times> stacks" where
  "home st = (Inr ApiIsWorking, st)"

definition create :: "int \<Rightarrow> real \<Rightarrow> stacks \<Rightarrow> response \<times> stacks" where
  "create token now st =
     (if length st \<ge> MAX_STACKS then (Inl MaxStacksReached, st)
      else (Inr (Created token),
            AList.update token \<lparr>array = [], expiry = now + 60 * 60\<rparr> st))"

text \<open>The function that \<^verbatim>\<open>push\<close> names before it is decorated.\<close>

definition push_body :: "parser \<Rightarrow> args \<Rightarrow> int \<Rightarrow> stacks \<Rightarrow> response \<times> stacks" where
  "push_body int_of args stack_id st =
     (case py_int int_of (args ''value'') of
        None \<Rightarrow> (Inl ValueMustBeInteger, st)
      | Some v \<Rightarrow>
          (case map_of st stack_id of
             None \<Rightarrow> (Inl KeyError, st)
           | Some s \<Rightarrow>
               (case array_append (array s) v of
                  None \<Rightarrow> (Inl ValueTooLarge, st)
                | Some xs \<Rightarrow>
                    if length xs > MAX_STACK_SIZE then
                      (case array_pop xs of
                         None \<Rightarrow> (Inl IndexError, set_array stack_id xs st)
                       | Some (_, ys) \<Rightarrow> (Inl StackOverflow, set_array stack_id ys st))
                    else (Inr Ok, set_array stack_id xs st))))"

definition push :: "parser \<Rightarrow> args \<Rightarrow> real \<Rightarrow> stacks \<Rightarrow> response \<times> stacks" where
  "push int_of args now st =
     require_valid_stack_id int_of (push_body int_of args) args now st"

text \<open>The loop of \<^verbatim>\<open>push_bulk\<close> on the array: the error that ended it, if any, and the
  array it leaves.\<close>

fun push_loop :: "int list \<Rightarrow> int list \<Rightarrow> error option \<times> int list" where
  "push_loop [] xs = (None, xs)"
| "push_loop (v # vs) xs =
     (case array_append xs v of
        None \<Rightarrow> (Some ValueTooLarge, xs)
      | Some ys \<Rightarrow>
          if length ys > MAX_STACK_SIZE then
            (case array_pop ys of
               None \<Rightarrow> (Some IndexError, ys)
             | Some (_, zs) \<Rightarrow> (Some StackOverflow, zs))
          else push_loop vs ys)"

definition push_bulk_body :: "parser \<Rightarrow> args \<Rightarrow> int \<Rightarrow> stacks \<Rightarrow> response \<times> stacks" where
  "push_bulk_body int_of args stack_id st =
     (case args ''values'' of
        None \<Rightarrow> (Inl ValuesMustBeProvided, st)
      | Some str \<Rightarrow>
          if str = [] then (Inl ValuesMustBeProvided, st)
          else (case those (map int_of (split CHR '','' str)) of
                  None \<Rightarrow> (Inl AllValuesMustBeIntegers, st)
                | Some vs \<Rightarrow>
                    (case map_of st stack_id of
                       None \<Rightarrow> (Inl KeyError, st)
                     | Some s \<Rightarrow>
                         (case push_loop vs (array s) of
                            (Some e, xs) \<Rightarrow> (Inl e, set_array stack_id xs st)
                          | (None, xs) \<Rightarrow> (Inr Ok, set_array stack_id xs st)))))"

definition push_bulk :: "parser \<Rightarrow> args \<Rightarrow> real \<Rightarrow> stacks \<Rightarrow> response \<times> stacks" where
  "push_bulk int_of args now st =
     require_valid_stack_id int_of (push_bulk_body int_of args) args now st"

definition pop_body :: "int \<Rightarrow> stacks \<Rightarrow> response \<times> stacks" where
  "pop_body stack_id st =
     (case map_of st stack_id of
        None \<Rightarrow> (Inl KeyError, st)
      | Some s \<Rightarrow>
          if length (array s) \<le> 0 then (Inl StackUnderflow, st)
          else (case array_pop (array s) of
                  None \<Rightarrow> (Inl IndexError, st)
                | Some (v, ys) \<Rightarrow> (Inr (Popped v), set_array stack_id ys st)))"

definition pop :: "parser \<Rightarrow> args \<Rightarrow> real \<Rightarrow> stacks \<Rightarrow> response \<times> stacks" where
  "pop int_of args now st = require_valid_stack_id int_of pop_body args now st"

text \<open>The comprehension \<^verbatim>\<open>[str(stack.pop()) for _ in range(count)]\<close>, run \<open>n\<close> times: the
  values popped (\<open>None\<close> when a pop raised \<^verbatim>\<open>IndexError\<close>) and the array left.\<close>

fun pop_loop :: "nat \<Rightarrow> int list \<Rightarrow> int list option \<times> int list" where
  "pop_loop 0 xs = (Some [], xs)"
| "pop_loop (Suc n) xs =
     (case array_pop xs of
        None \<Rightarrow> (None, xs)
      | Some (v, ys) \<Rightarrow>
          (case pop_loop n ys of
             (None, zs) \<Rightarrow> (None, zs)
           | (Some vs, zs) \<Rightarrow> (Some (v # vs), zs)))"

text \<open>\<^verbatim>\<open>range(count)\<close> is empty for a negative \<open>count\<close>: the loop runs \<open>nat count\<close> times.\<close>

definition pop_bulk_body :: "parser \<Rightarrow> args \<Rightarrow> int \<Rightarrow> stacks \<Rightarrow> response \<times> stacks" where
  "pop_bulk_body int_of args stack_id st =
     (case py_int int_of (args ''count'') of
        None \<Rightarrow> (Inl CountMustBeInteger, st)
      | Some count \<Rightarrow>
          (case map_of st stack_id of
             None \<Rightarrow> (Inl KeyError, st)
           | Some s \<Rightarrow>
               if int (length (array s)) < count then (Inl StackUnderflow, st)
               else (case pop_loop (nat count) (array s) of
                       (None, xs) \<Rightarrow> (Inl IndexError, set_array stack_id xs st)
                     | (Some vs, xs) \<Rightarrow> (Inr (PoppedBulk vs), set_array stack_id xs st))))"

definition pop_bulk :: "parser \<Rightarrow> args \<Rightarrow> real \<Rightarrow> stacks \<Rightarrow> response \<times> stacks" where
  "pop_bulk int_of args now st =
     require_valid_stack_id int_of (pop_bulk_body int_of args) args now st"

definition size_body :: "int \<Rightarrow> stacks \<Rightarrow> response \<times> stacks" where
  "size_body stack_id st =
     (case map_of st stack_id of
        None \<Rightarrow> (Inl KeyError, st)
      | Some s \<Rightarrow> (Inr (Size (length (array s))), st))"

definition size_view :: "parser \<Rightarrow> args \<Rightarrow> real \<Rightarrow> stacks \<Rightarrow> response \<times> stacks" where
  "size_view int_of args now st = require_valid_stack_id int_of size_body args now st"

definition peek_body :: "int \<Rightarrow> stacks \<Rightarrow> response \<times> stacks" where
  "peek_body stack_id st =
     (case map_of st stack_id of
        None \<Rightarrow> (Inl KeyError, st)
      | Some s \<Rightarrow>
          if length (array s) = 0 then (Inl StackIsEmpty, st)
          else (Inr (Top (last (array s))), st))"

definition peek :: "parser \<Rightarrow> args \<Rightarrow> real \<Rightarrow> stacks \<Rightarrow> response \<times> stacks" where
  "peek int_of args now st = require_valid_stack_id int_of peek_body args now st"

definition destroy_body :: "int \<Rightarrow> stacks \<Rightarrow> response \<times> stacks" where
  "destroy_body stack_id st =
     (case map_of st stack_id of
        None \<Rightarrow> (Inl KeyError, st)
      | Some _ \<Rightarrow> (Inr Ok, AList.delete stack_id st))"

definition destroy :: "parser \<Rightarrow> args \<Rightarrow> real \<Rightarrow> stacks \<Rightarrow> response \<times> stacks" where
  "destroy int_of args now st = require_valid_stack_id int_of destroy_body args now st"

definition list_stacks :: "stacks \<Rightarrow> response \<times> stacks" where
  "list_stacks st =
     (Inr (Listing (length st) (map (\<lambda>(stack_id, s). length (array s)) st)), st)"

subsection \<open>One request\<close>

text \<open>A request names its route and carries its query arguments and what the handlers
  read from the environment while they serve it: the readings of the clock during the
  sweep (\<open>sweep_clock\<close>), the reading of the clock in the handler (\<open>clock\<close>) and the
  random identifier (\<open>random_id\<close>).\<close>

datatype route =
  Home | Create | Push | PushBulk | Pop | PopBulk | SizeOf | Peek | Destroy | ListStacks

record request =
  path :: route
  query :: args
  sweep_clock :: "nat \<Rightarrow> real"
  clock :: real
  random_id :: int

text \<open>Flask runs the \<^verbatim>\<open>before_request\<close> function and then the view of the route.\<close>

definition view :: "parser \<Rightarrow> request \<Rightarrow> stacks \<Rightarrow> response \<times> stacks" where
  "view int_of r st =
     (case path r of
        Home \<Rightarrow> home st
      | Create \<Rightarrow> create (random_id r) (clock r) st
      | Push \<Rightarrow> push int_of (query r) (clock r) st
      | PushBulk \<Rightarrow> push_bulk int_of (query r) (clock r) st
      | Pop \<Rightarrow> pop int_of (query r) (clock r) st
      | PopBulk \<Rightarrow> pop_bulk int_of (query r) (clock r) st
      | SizeOf \<Rightarrow> size_view int_of (query r) (clock r) st
      | Peek \<Rightarrow> peek int_of (query r) (clock r) st
      | Destroy \<Rightarrow> destroy int_of (query r) (clock r) st
      | ListStacks \<Rightarrow> list_stacks st)"

definition serve :: "parser \<Rightarrow> request \<Rightarrow> stacks \<Rightarrow> response \<times> stacks" where
  "serve int_of r st = view int_of r (before_request (sweep_clock r) st)"

subsection \<open>Sessions\<close>

text \<open>A client that makes calls one after another: each call works on the dictionary
  the call before it has left, and the responses are collected in order.\<close>

fun run :: "(stacks \<Rightarrow> response \<times> stacks) list \<Rightarrow> stacks \<Rightarrow> response list \<times> stacks" where
  "run [] st = ([], st)"
| "run (call # calls) st =
     (case call st of
        (r, st') \<Rightarrow> (case run calls st' of (rs, st'') \<Rightarrow> (r # rs, st'')))"

subsection \<open>A parser and a clock for the examples\<close>

text \<open>The theorems below hold for every parser. The concrete examples instantiate it with
  plain decimal numerals, an optional minus sign followed by one or more ASCII digits,
  on which the builtin \<^verbatim>\<open>int\<close> has the same value.\<close>

definition digit :: "char \<Rightarrow> int option" where
  "digit c = map_of [(CHR ''0'', 0), (CHR ''1'', 1), (CHR ''2'', 2), (CHR ''3'', 3),
     (CHR ''4'', 4), (CHR ''5'', 5), (CHR ''6'', 6), (CHR ''7'', 7), (CHR ''8'', 8),
     (CHR ''9'', 9)] c"

fun digits :: "int \<Rightarrow> string \<Rightarrow> int option" where
  "digits acc [] = Some acc"
| "digits acc (c # cs) =
     (case digit c of None \<Rightarrow> None | Some d \<Rightarrow> digits (10 * acc + d) cs)"

definition decimal :: parser where
  "decimal str =
     (case str of
        [] \<Rightarrow> None
      | c # cs \<Rightarrow>
          if c = CHR ''-'' then (if cs = [] then None else map_option uminus (digits 0 cs))
          else digits 0 str)"

text \<open>A clock given by the list of its successive readings; it stays at the last one.\<close>

definition readings :: "real list \<Rightarrow> nat \<Rightarrow> real" where
  "readings rs i = (if i < length rs then rs ! i else last rs)"

section \<open>Properties\<close>

subsection \<open>Association lists\<close>

lemma map_entry_twice:
  "AList.map_entry k g (AList.map_entry k f st) = AList.map_entry k (g \<circ> f) st"
  by (induction st) auto

lemma map_entry_id:
  "map_of st k = Some v \<Longrightarrow> f v = v \<Longrightarrow> AList.map_entry k f st = st"
  by (induction st) (auto split: if_splits)

lemma map_entry_cong_at:
  "map_of st k = Some v \<Longrightarrow> f v = g v \<Longrightarrow> AList.map_entry k f st = AList.map_entry k g st"
  by (induction st) (auto split: if_splits)

lemma map_fst_map_entry: "map fst (AList.map_entry k f st) = map fst st"
  by (induction st) auto

lemma length_map_entry: "length (AList.map_entry k f st) = length st"
  by (induction st) auto

lemma map_of_map_entry_Some:
  "map_of st k = Some v \<Longrightarrow> map_of (AList.map_entry k f st) = (map_of st)(k \<mapsto> f v)"
  by (induction st) (auto split: if_splits)

subsection \<open>The decorator and the loops\<close>

text \<open>For an identifier that parses and is present, the decorated handler is the handler
  run on the dictionary whose entry has been refreshed.\<close>

lemma decorated:
  assumes "py_int int_of (args ''id'') = Some stack_id" and "map_of st stack_id = Some s"
    and "t = now + 60 * 60"
  shows "require_valid_stack_id int_of func args now st =
         func stack_id (AList.map_entry stack_id (\<lambda>e. e\<lparr>expiry := t\<rparr>) st)"
  using assms by (simp add: require_valid_stack_id_def refresh_stack_expiry_def)

lemma map_of_refreshed:
  "map_of st k = Some s \<Longrightarrow>
   map_of (AList.map_entry k (\<lambda>e. e\<lparr>expiry := t\<rparr>) st) k = Some (s\<lparr>expiry := t\<rparr>)"
  by (simp add: map_of_map_entry_Some)

lemma set_array_refreshed:
  assumes "map_of st stack_id = Some s"
  shows "set_array stack_id xs (AList.map_entry stack_id (\<lambda>e. e\<lparr>expiry := t\<rparr>) st) =
         AList.map_entry stack_id (\<lambda>e. \<lparr>array = xs, expiry = t\<rparr>) st"
  unfolding set_array_def map_entry_twice
  by (rule map_entry_cong_at [OF assms]) simp

text \<open>What the loop of \<^verbatim>\<open>push_bulk\<close> does, in closed form: it appends the values in
  range, in order, until the room is used up or a value is out of range.\<close>

lemma push_loop_eq:
  "push_loop vs xs =
     (if length (takeWhile int64 vs) > MAX_STACK_SIZE - length xs
      then (Some StackOverflow, xs @ take (MAX_STACK_SIZE - length xs) vs)
      else if takeWhile int64 vs = vs then (None, xs @ vs)
      else (Some ValueTooLarge, xs @ takeWhile int64 vs))"
proof (induction vs arbitrary: xs)
  case Nil
  then show ?case by simp
next
  case (Cons v vs)
  show ?case
  proof (cases "int64 v")
    case False
    then show ?thesis by (simp add: array_append_def)
  next
    case True
    show ?thesis
    proof (cases "length xs < MAX_STACK_SIZE")
      case False
      with True show ?thesis by (simp add: array_append_def array_pop_def)
    next
      case room: True
      then have "MAX_STACK_SIZE - length xs = Suc (MAX_STACK_SIZE - Suc (length xs))"
        by simp
      with True room show ?thesis
        by (simp add: array_append_def Cons.IH)
    qed
  qed
qed

text \<open>The loop of \<^verbatim>\<open>pop_bulk\<close> on an array that is long enough never raises.\<close>

lemma pop_loop_eq:
  "n \<le> length xs \<Longrightarrow>
   pop_loop n xs = (Some (take n (rev xs)), take (length xs - n) xs)"
proof (induction n arbitrary: xs)
  case 0
  then show ?case by simp
next
  case (Suc n)
  then have ne: "xs \<noteq> []" by auto
  then obtain ys y where xs: "xs = ys @ [y]"
    by (metis rev_exhaust)
  with Suc.prems have "n \<le> length ys" by simp
  from Suc.IH [OF this] xs show ?case
    by (simp add: array_pop_def)
qed

subsection \<open>push\<close>

lemma push_body_eq:
  assumes "map_of st stack_id = Some s" "py_int int_of (args ''value'') = Some v" "int64 v"
  shows "push_body int_of args stack_id st =
     (if length (array s) < MAX_STACK_SIZE
      then (Inr Ok, set_array stack_id (array s @ [v]) st)
      else (Inl StackOverflow, set_array stack_id (array s) st))"
  using assms by (simp add: push_body_def array_append_def array_pop_def)

lemma size_body_eq:
  "map_of st stack_id = Some s \<Longrightarrow> size_body stack_id st = (Inr (Size (length (array s))), st)"
  by (simp add: size_body_def)

text \<open>
  Claim C4. On an existing stack whose length is \<open>MAX_STACK_SIZE\<close>, a push of a value in
  the signed 64-bit range answers "Stack overflow"; the dictionary after the call is the
  one before it with the expiry of the entry refreshed, so the array is what it was, and
  \<^verbatim>\<open>size\<close> then reports \<open>MAX_STACK_SIZE\<close>. On a stack that is shorter, the push answers
  "Ok" and the value is the new last element of the array.
\<close>

theorem push_capacity:
  assumes "py_int int_of (args ''id'') = Some stack_id"
    and "map_of st stack_id = Some s"
    and "py_int int_of (args ''value'') = Some v"
    and "int64 v"
  shows "(length (array s) = MAX_STACK_SIZE \<longrightarrow>
            push int_of args now st =
              (Inl StackOverflow, AList.map_entry stack_id (\<lambda>e. e\<lparr>expiry := now + 60 * 60\<rparr>) st)
          \<and> map_option array (map_of (snd (push int_of args now st)) stack_id) = Some (array s)
          \<and> fst (size_view int_of args now' (snd (push int_of args now st))) =
              Inr (Size MAX_STACK_SIZE))
       \<and> (length (array s) < MAX_STACK_SIZE \<longrightarrow>
            push int_of args now st =
              (Inr Ok, AList.map_entry stack_id
                         (\<lambda>e. \<lparr>array = array s @ [v], expiry = now + 60 * 60\<rparr>) st))"
proof -
  define t where "t = now + 60 * 60"
  define st' where "st' = AList.map_entry stack_id (\<lambda>e. e\<lparr>expiry := t\<rparr>) st"
  have m: "map_of st' stack_id = Some (s\<lparr>expiry := t\<rparr>)"
    unfolding st'_def using assms(2) by (rule map_of_refreshed)
  have p: "push int_of args now st = push_body int_of args stack_id st'"
    unfolding push_def st'_def using assms(1,2) t_def by (rule decorated)
  have b: "push_body int_of args stack_id st' =
     (if length (array s) < MAX_STACK_SIZE
      then (Inr Ok, set_array stack_id (array s @ [v]) st')
      else (Inl StackOverflow, set_array stack_id (array s) st'))"
    using push_body_eq [where args = args, OF m assms(3,4)] by simp
  have same: "set_array stack_id (array s) st' = st'"
    unfolding set_array_def by (rule map_entry_id [OF m]) simp
  have app: "set_array stack_id (array s @ [v]) st' =
      AList.map_entry stack_id (\<lambda>e. \<lparr>array = array s @ [v], expiry = t\<rparr>) st"
    unfolding st'_def using assms(2) by (rule set_array_refreshed)
  have sz: "size_view int_of args now' st' =
      (Inr (Size (length (array s))),
       AList.map_entry stack_id (\<lambda>e. e\<lparr>expiry := now' + 60 * 60\<rparr>) st')"
    unfolding size_view_def
    using size_body_eq [OF map_of_refreshed [OF m]]
    by (simp only: decorated [where args = args and s = "s\<lparr>expiry := t\<rparr>", OF assms(1) m refl])
      simp
  show ?thesis
    unfolding t_def [symmetric] st'_def [symmetric]
    using p b same app m sz by simp
qed

theorem push_capacity_witness:
  "push decimal [''id'' \<mapsto> ''7'', ''value'' \<mapsto> ''5''] 10
      [(7, \<lparr>array = replicate MAX_STACK_SIZE 0, expiry = 20\<rparr>)] =
     (Inl StackOverflow, [(7, \<lparr>array = replicate MAX_STACK_SIZE 0, expiry = 3610\<rparr>)])
   \<and> push decimal [''id'' \<mapsto> ''7'', ''value'' \<mapsto> ''5''] 10
      [(7, \<lparr>array = [4], expiry = 20\<rparr>)] =
     (Inr Ok, [(7, \<lparr>array = [4, 5], expiry = 3610\<rparr>)])"
  using push_capacity [of decimal "[''id'' \<mapsto> ''7'', ''value'' \<mapsto> ''5'']" 7
      "[(7, \<lparr>array = replicate MAX_STACK_SIZE 0, expiry = 20\<rparr>)]"
      "\<lparr>array = replicate MAX_STACK_SIZE 0, expiry = 20\<rparr>" 5 10]
    push_capacity [of decimal "[''id'' \<mapsto> ''7'', ''value'' \<mapsto> ''5'']" 7
      "[(7, \<lparr>array = [4], expiry = 20\<rparr>)]" "\<lparr>array = [4], expiry = 20\<rparr>" 5 10]
  by (simp add: py_int_def decimal_def digit_def int64_def MAX_STACK_SIZE_def)

subsection \<open>pop_bulk\<close>

lemma set_array_same:
  "map_of st k = Some s \<Longrightarrow> array s = xs \<Longrightarrow> set_array k xs st = st"
  unfolding set_array_def by (rule map_entry_id) auto

lemma pop_bulk_body_eq:
  assumes "map_of st stack_id = Some s" and "py_int int_of (args ''count'') = Some count"
  shows "pop_bulk_body int_of args stack_id st =
     (if int (length (array s)) < count then (Inl StackUnderflow, st)
      else (Inr (PoppedBulk (take (nat count) (rev (array s)))),
            set_array stack_id (take (length (array s) - nat count) (array s)) st))"
proof (cases "int (length (array s)) < count")
  case True
  with assms show ?thesis by (simp add: pop_bulk_body_def)
next
  case False
  then have "nat count \<le> length (array s)" by simp
  from pop_loop_eq [OF this] assms False show ?thesis
    by (simp add: pop_bulk_body_def)
qed

text \<open>
  Claim C3. On an existing stack, \<^verbatim>\<open>pop_bulk\<close> with a count greater than the length of
  the array answers "Stack underflow" and pops nothing: the dictionary after the call is
  the one before it with the expiry of the entry refreshed by the lookup, and the array
  is what it was. With a count from 0 to the length, it answers with exactly \<open>count\<close>
  values, the last \<open>count\<close> elements of the array from the top down, and leaves the
  elements below them.
\<close>

theorem pop_bulk_atomic:
  assumes "py_int int_of (args ''id'') = Some stack_id"
    and "map_of st stack_id = Some s"
    and "py_int int_of (args ''count'') = Some count"
  shows "(int (length (array s)) < count \<longrightarrow>
            pop_bulk int_of args now st =
              (Inl StackUnderflow, AList.map_entry stack_id (\<lambda>e. e\<lparr>expiry := now + 60 * 60\<rparr>) st)
          \<and> map_option array (map_of (snd (pop_bulk int_of args now st)) stack_id) =
              Some (array s))
       \<and> (0 \<le> count \<and> count \<le> int (length (array s)) \<longrightarrow>
            pop_bulk int_of args now st =
              (Inr (PoppedBulk (take (nat count) (rev (array s)))),
               AList.map_entry stack_id
                 (\<lambda>e. \<lparr>array = take (length (array s) - nat count) (array s),
                       expiry = now + 60 * 60\<rparr>) st)
          \<and> length (take (nat count) (rev (array s))) = nat count
          \<and> take (length (array s) - nat count) (array s) @ rev (take (nat count) (rev (array s)))
              = array s)"
proof -
  define t where "t = now + 60 * 60"
  define st' where "st' = AList.map_entry stack_id (\<lambda>e. e\<lparr>expiry := t\<rparr>) st"
  have m: "map_of st' stack_id = Some (s\<lparr>expiry := t\<rparr>)"
    unfolding st'_def using assms(2) by (rule map_of_refreshed)
  have p: "pop_bulk int_of args now st = pop_bulk_body int_of args stack_id st'"
    unfolding pop_bulk_def st'_def using assms(1,2) t_def by (rule decorated)
  have b: "pop_bulk_body int_of args stack_id st' =
     (if int (length (array s)) < count then (Inl StackUnderflow, st')
      else (Inr (PoppedBulk (take (nat count) (rev (array s)))),
            set_array stack_id (take (length (array s) - nat count) (array s)) st'))"
    using pop_bulk_body_eq [where args = args, OF m assms(3)] by simp
  have upd: "set_array stack_id xs st' =
      AList.map_entry stack_id (\<lambda>e. \<lparr>array = xs, expiry = t\<rparr>) st" for xs
    unfolding st'_def using assms(2) by (rule set_array_refreshed)
  have parts: "take (length xs - n) xs @ rev (take n (rev xs)) = xs" for xs :: "int list" and n
    by (simp add: take_rev)
  show ?thesis
    unfolding t_def [symmetric] st'_def [symmetric]
    using p b upd m parts by (auto simp: min_def)
qed

theorem pop_bulk_atomic_witness:
  "pop_bulk decimal [''id'' \<mapsto> ''7'', ''count'' \<mapsto> ''3''] 10
      [(7, \<lparr>array = [1, 2], expiry = 20\<rparr>)] =
     (Inl StackUnderflow, [(7, \<lparr>array = [1, 2], expiry = 3610\<rparr>)])
   \<and> pop_bulk decimal [''id'' \<mapsto> ''7'', ''count'' \<mapsto> ''2''] 10
      [(7, \<lparr>array = [1, 2, 3], expiry = 20\<rparr>)] =
     (Inr (PoppedBulk [3, 2]), [(7, \<lparr>array = [1], expiry = 3610\<rparr>)])"
  using pop_bulk_atomic [of decimal "[''id'' \<mapsto> ''7'', ''count'' \<mapsto> ''3'']" 7
      "[(7, \<lparr>array = [1, 2], expiry = 20\<rparr>)]" "\<lparr>array = [1, 2], expiry = 20\<rparr>" 3 10]
    pop_bulk_atomic [of decimal "[''id'' \<mapsto> ''7'', ''count'' \<mapsto> ''2'']" 7
      "[(7, \<lparr>array = [1, 2, 3], expiry = 20\<rparr>)]" "\<lparr>array = [1, 2, 3], expiry = 20\<rparr>" 2 10]
  by (simp add: py_int_def decimal_def digit_def)

text \<open>
  Claim C10. On an existing stack, \<^verbatim>\<open>pop_bulk\<close> with a negative count succeeds: it
  answers with the empty sequence and leaves the array unchanged (the lookup refreshes
  the expiry), since the only test is \<^verbatim>\<open>len(stack) < count\<close> and \<^verbatim>\<open>range(count)\<close> is
  empty.
\<close>

theorem pop_bulk_negative_count:
  assumes "py_int int_of (args ''id'') = Some stack_id"
    and "map_of st stack_id = Some s"
    and "py_int int_of (args ''count'') = Some count"
    and "count < 0"
  shows "pop_bulk int_of args now st =
           (Inr (PoppedBulk []), AList.map_entry stack_id (\<lambda>e. e\<lparr>expiry := now + 60 * 60\<rparr>) st)
       \<and> map_option array (map_of (snd (pop_bulk int_of args now st)) stack_id) = Some (array s)"
proof -
  define t where "t = now + 60 * 60"
  define st' where "st' = AList.map_entry stack_id (\<lambda>e. e\<lparr>expiry := t\<rparr>) st"
  have m: "map_of st' stack_id = Some (s\<lparr>expiry := t\<rparr>)"
    unfolding st'_def using assms(2) by (rule map_of_refreshed)
  have p: "pop_bulk int_of args now st = pop_bulk_body int_of args stack_id st'"
    unfolding pop_bulk_def st'_def using assms(1,2) t_def by (rule decorated)
  have b: "pop_bulk_body int_of args stack_id st' =
      (Inr (PoppedBulk []), set_array stack_id (array s) st')"
    using pop_bulk_body_eq [where args = args, OF m assms(3)] assms(4) by simp
  have same: "set_array stack_id (array s) st' = st'"
    by (rule set_array_same [OF m]) simp
  show ?thesis
    unfolding t_def [symmetric] st'_def [symmetric]
    using p b same m by simp
qed

theorem pop_bulk_negative_count_witness:
  "pop_bulk decimal [''id'' \<mapsto> ''7'', ''count'' \<mapsto> ''-2''] 10
      [(7, \<lparr>array = [1, 2, 3], expiry = 20\<rparr>)] =
     (Inr (PoppedBulk []), [(7, \<lparr>array = [1, 2, 3], expiry = 3610\<rparr>)])"
  using pop_bulk_negative_count [of decimal "[''id'' \<mapsto> ''7'', ''count'' \<mapsto> ''-2'']" 7
      "[(7, \<lparr>array = [1, 2, 3], expiry = 20\<rparr>)]" "\<lparr>array = [1, 2, 3], expiry = 20\<rparr>" "-2" 10]
  by (simp add: py_int_def decimal_def digit_def)

subsection \<open>push_bulk\<close>

lemma push_bulk_body_eq:
  assumes "map_of st stack_id = Some s"
    and "args ''values'' = Some str" and "str \<noteq> []"
    and "those (map int_of (split CHR '','' str)) = Some vs"
  shows "push_bulk_body int_of args stack_id st =
     (if length (takeWhile int64 vs) > MAX_STACK_SIZE - length (array s)
      then (Inl StackOverflow,
            set_array stack_id (array s @ take (MAX_STACK_SIZE - length (array s)) vs) st)
      else if takeWhile int64 vs = vs then (Inr Ok, set_array stack_id (array s @ vs) st)
      else (Inl ValueTooLarge, set_array stack_id (array s @ takeWhile int64 vs) st))"
  using assms by (simp add: push_bulk_body_def push_loop_eq)

lemma push_bulk_body_not_integers:
  assumes "args ''values'' = Some str" and "str \<noteq> []"
    and "those (map int_of (split CHR '','' str)) = None"
  shows "push_bulk_body int_of args stack_id st = (Inl AllValuesMustBeIntegers, st)"
  using assms by (simp add: push_bulk_body_def)

text \<open>
  Claim C1, as the code has it. On an existing stack and a non-empty \<^verbatim>\<open>values\<close> argument,
  \<^verbatim>\<open>push_bulk\<close> answers "All values must be integers" exactly when some piece of the
  argument is not an integer, and then nothing has been appended: the dictionary is the
  one before the call with the expiry of the entry refreshed. The range of the values is
  not checked beforehand but by each append: the call answers "Value is too large"
  exactly when a value out of the signed 64-bit range is reached before the capacity is,
  and then the values of the batch before the first one out of range have been appended,
  in order, and stay.
\<close>

theorem push_bulk_value_errors:
  assumes "py_int int_of (args ''id'') = Some stack_id"
    and "map_of st stack_id = Some s"
    and "args ''values'' = Some str" and "str \<noteq> []"
  shows "(fst (push_bulk int_of args now st) = Inl AllValuesMustBeIntegers \<longleftrightarrow>
            those (map int_of (split CHR '','' str)) = None)
       \<and> (fst (push_bulk int_of args now st) = Inl AllValuesMustBeIntegers \<longrightarrow>
            snd (push_bulk int_of args now st) =
              AList.map_entry stack_id (\<lambda>e. e\<lparr>expiry := now + 60 * 60\<rparr>) st)
       \<and> (\<forall>vs. those (map int_of (split CHR '','' str)) = Some vs \<longrightarrow>
            (fst (push_bulk int_of args now st) = Inl ValueTooLarge \<longleftrightarrow>
               takeWhile int64 vs \<noteq> vs \<and>
               length (takeWhile int64 vs) \<le> MAX_STACK_SIZE - length (array s))
          \<and> (fst (push_bulk int_of args now st) = Inl ValueTooLarge \<longrightarrow>
               snd (push_bulk int_of args now st) =
                 AList.map_entry stack_id
                   (\<lambda>e. \<lparr>array = array s @ takeWhile int64 vs, expiry = now + 60 * 60\<rparr>) st))"
proof -
  define t where "t = now + 60 * 60"
  define st' where "st' = AList.map_entry stack_id (\<lambda>e. e\<lparr>expiry := t\<rparr>) st"
  have m: "map_of st' stack_id = Some (s\<lparr>expiry := t\<rparr>)"
    unfolding st'_def using assms(2) by (rule map_of_refreshed)
  have p: "push_bulk int_of args now st = push_bulk_body int_of args stack_id st'"
    unfolding push_bulk_def st'_def using assms(1,2) t_def by (rule decorated)
  have upd: "set_array stack_id xs st' =
      AList.map_entry stack_id (\<lambda>e. \<lparr>array = xs, expiry = t\<rparr>) st" for xs
    unfolding st'_def using assms(2) by (rule set_array_refreshed)
  show ?thesis
  proof (cases "those (map int_of (split CHR '','' str))")
    case None
    from push_bulk_body_not_integers [where args = args, OF assms(3,4) None, of stack_id st'] p
    show ?thesis
      unfolding t_def [symmetric] st'_def [symmetric] using None by simp
  next
    case (Some vs)
    from push_bulk_body_eq [where args = args, OF m assms(3,4) Some] p upd
    show ?thesis
      unfolding t_def [symmetric] st'_def [symmetric] using Some by (simp split: if_splits)
  qed
qed

theorem push_bulk_value_errors_witness:
  "push_bulk decimal [''id'' \<mapsto> ''7'', ''values'' \<mapsto> ''1,x,3''] 10
      [(7, \<lparr>array = [4], expiry = 20\<rparr>)] =
     (Inl AllValuesMustBeIntegers, [(7, \<lparr>array = [4], expiry = 3610\<rparr>)])
   \<and> push_bulk decimal [''id'' \<mapsto> ''7'', ''values'' \<mapsto> ''1,2,-9223372036854775809,3''] 10
      [(7, \<lparr>array = [4], expiry = 20\<rparr>)] =
     (Inl ValueTooLarge, [(7, \<lparr>array = [4, 1, 2], expiry = 3610\<rparr>)])"
  using push_bulk_value_errors [of decimal "[''id'' \<mapsto> ''7'', ''values'' \<mapsto> ''1,x,3'']" 7
      "[(7, \<lparr>array = [4], expiry = 20\<rparr>)]" "\<lparr>array = [4], expiry = 20\<rparr>" "''1,x,3''" 10]
    push_bulk_value_errors [of decimal
      "[''id'' \<mapsto> ''7'', ''values'' \<mapsto> ''1,2,-9223372036854775809,3'']" 7
      "[(7, \<lparr>array = [4], expiry = 20\<rparr>)]" "\<lparr>array = [4], expiry = 20\<rparr>"
      "''1,2,-9223372036854775809,3''" 10]
  by (simp add: py_int_def decimal_def digit_def int64_def MAX_STACK_SIZE_def prod_eq_iff)

text \<open>
  Claim C1 as stated fails: the batch \<^verbatim>\<open>1,9223372036854775808\<close> on an empty stack
  answers "Value is too large", and the array is \<open>[1]\<close> afterwards.
\<close>

theorem push_bulk_range_check_counterexample:
  "push_bulk decimal [''id'' \<mapsto> ''7'', ''values'' \<mapsto> ''1,9223372036854775808''] 10
      [(7, \<lparr>array = [], expiry = 20\<rparr>)] =
     (Inl ValueTooLarge, [(7, \<lparr>array = [1], expiry = 3610\<rparr>)])"
  by (simp add: push_bulk_def require_valid_stack_id_def py_int_def decimal_def digit_def
      refresh_stack_expiry_def push_bulk_body_def array_append_def int64_def MAX_STACK_SIZE_def
      set_array_def)

lemma takeWhile_prefix_length:
  assumes "\<forall>v \<in> set (take n vs). P v" and "n \<le> length vs"
  shows "n \<le> length (takeWhile P vs)"
proof -
  have "takeWhile P vs = takeWhile P (take n vs @ drop n vs)" by simp
  also have "\<dots> = take n vs @ takeWhile P (drop n vs)"
    using assms(1) by (intro takeWhile_append2) auto
  finally show ?thesis using assms(2) by simp
qed

text \<open>
  Claim C2. On an existing stack within its capacity, a batch of integers that is longer
  than the room left, and whose values up to and including the first one that does not
  fit are in the signed 64-bit range, answers "Stack overflow"; the values before the
  one that does not fit have been appended in input order and stay, the one that does not
  fit has been removed again, and the length of the array is \<open>MAX_STACK_SIZE\<close>.
\<close>

theorem push_bulk_overflow:
  assumes "py_int int_of (args ''id'') = Some stack_id"
    and "map_of st stack_id = Some s"
    and "args ''values'' = Some str" and "str \<noteq> []"
    and "those (map int_of (split CHR '','' str)) = Some vs"
    and "length (array s) \<le> MAX_STACK_SIZE"
    and "length (array s) + length vs > MAX_STACK_SIZE"
    and "\<forall>v \<in> set (take (MAX_STACK_SIZE - length (array s) + 1) vs). int64 v"
  shows "push_bulk int_of args now st =
           (Inl StackOverflow,
            AList.map_entry stack_id
              (\<lambda>e. \<lparr>array = array s @ take (MAX_STACK_SIZE - length (array s)) vs,
                    expiry = now + 60 * 60\<rparr>) st)
       \<and> length (array s @ take (MAX_STACK_SIZE - length (array s)) vs) = MAX_STACK_SIZE"
proof -
  define t where "t = now + 60 * 60"
  define st' where "st' = AList.map_entry stack_id (\<lambda>e. e\<lparr>expiry := t\<rparr>) st"
  have m: "map_of st' stack_id = Some (s\<lparr>expiry := t\<rparr>)"
    unfolding st'_def using assms(2) by (rule map_of_refreshed)
  have p: "push_bulk int_of args now st = push_bulk_body int_of args stack_id st'"
    unfolding push_bulk_def st'_def using assms(1,2) t_def by (rule decorated)
  have upd: "set_array stack_id xs st' =
      AList.map_entry stack_id (\<lambda>e. \<lparr>array = xs, expiry = t\<rparr>) st" for xs
    unfolding st'_def using assms(2) by (rule set_array_refreshed)
  have "MAX_STACK_SIZE - length (array s) + 1 \<le> length vs"
    using assms(6,7) by simp
  with assms(8) have "MAX_STACK_SIZE - length (array s) + 1 \<le> length (takeWhile int64 vs)"
    by (rule takeWhile_prefix_length)
  then have over: "length (takeWhile int64 vs) > MAX_STACK_SIZE - length (array s)"
    by simp
  from push_bulk_body_eq [where args = args, OF m assms(3,4,5)] p upd over
  have "push_bulk int_of args now st =
      (Inl StackOverflow,
       AList.map_entry stack_id
         (\<lambda>e. \<lparr>array = array s @ take (MAX_STACK_SIZE - length (array s)) vs, expiry = t\<rparr>) st)"
    by simp
  moreover have "length (array s @ take (MAX_STACK_SIZE - length (array s)) vs) = MAX_STACK_SIZE"
    using assms(6,7) by simp
  ultimately show ?thesis unfolding t_def by simp
qed

theorem push_bulk_overflow_witness:
  "push_bulk decimal [''id'' \<mapsto> ''7'', ''values'' \<mapsto> ''5,6,7''] 10
      [(7, \<lparr>array = replicate (MAX_STACK_SIZE - 2) 0, expiry = 20\<rparr>)] =
     (Inl StackOverflow,
      [(7, \<lparr>array = replicate (MAX_STACK_SIZE - 2) 0 @ [5, 6], expiry = 3610\<rparr>)])"
  using push_bulk_overflow [of decimal "[''id'' \<mapsto> ''7'', ''values'' \<mapsto> ''5,6,7'']" 7
      "[(7, \<lparr>array = replicate (MAX_STACK_SIZE - 2) 0, expiry = 20\<rparr>)]"
      "\<lparr>array = replicate (MAX_STACK_SIZE - 2) 0, expiry = 20\<rparr>" "''5,6,7''" "[5, 6, 7]" 10]
  by (simp add: py_int_def decimal_def digit_def int64_def MAX_STACK_SIZE_def)

subsection \<open>The handlers on a present identifier, in closed form\<close>

text \<open>For an identifier that parses and is present, each decorated handler is a case
  distinction on its arguments and the array of the entry. In every case the entry has
  the expiry \<open>t = now + 60 * 60\<close> afterwards, unless the handler deleted it.\<close>

lemma push_present:
  assumes "py_int int_of (args ''id'') = Some stack_id" and "map_of st stack_id = Some s"
    and "t = now + 60 * 60"
  shows "push int_of args now st =
     (case py_int int_of (args ''value'') of
        None \<Rightarrow> (Inl ValueMustBeInteger, AList.map_entry stack_id (\<lambda>e. e\<lparr>expiry := t\<rparr>) st)
      | Some v \<Rightarrow>
          if \<not> int64 v
          then (Inl ValueTooLarge, AList.map_entry stack_id (\<lambda>e. e\<lparr>expiry := t\<rparr>) st)
          else if length (array s) < MAX_STACK_SIZE
          then (Inr Ok, AList.map_entry stack_id (\<lambda>e. \<lparr>array = array s @ [v], expiry = t\<rparr>) st)
          else (Inl StackOverflow, AList.map_entry stack_id (\<lambda>e. e\<lparr>expiry := t\<rparr>) st))"
proof -
  define st' where "st' = AList.map_entry stack_id (\<lambda>e. e\<lparr>expiry := t\<rparr>) st"
  have m: "map_of st' stack_id = Some (s\<lparr>expiry := t\<rparr>)"
    unfolding st'_def using assms(2) by (rule map_of_refreshed)
  have p: "push int_of args now st = push_body int_of args stack_id st'"
    unfolding push_def st'_def using assms by (rule decorated)
  have same: "set_array stack_id (array s) st' = st'"
    by (rule set_array_same [OF m]) simp
  have app: "set_array stack_id xs st' =
      AList.map_entry stack_id (\<lambda>e. \<lparr>array = xs, expiry = t\<rparr>) st" for xs
    unfolding st'_def using assms(2) by (rule set_array_refreshed)
  show ?thesis
    unfolding st'_def [symmetric] p
    using m same app
    by (simp add: push_body_def array_append_def array_pop_def split: option.splits)
qed

lemma pop_present:
  assumes "py_int int_of (args ''id'') = Some stack_id" and "map_of st stack_id = Some s"
    and "t = now + 60 * 60"
  shows "pop int_of args now st =
     (if array s = []
      then (Inl StackUnderflow, AList.map_entry stack_id (\<lambda>e. e\<lparr>expiry := t\<rparr>) st)
      else (Inr (Popped (last (array s))),
            AList.map_entry stack_id (\<lambda>e. \<lparr>array = butlast (array s), expiry = t\<rparr>) st))"
proof -
  define st' where "st' = AList.map_entry stack_id (\<lambda>e. e\<lparr>expiry := t\<rparr>) st"
  have m: "map_of st' stack_id = Some (s\<lparr>expiry := t\<rparr>)"
    unfolding st'_def using assms(2) by (rule map_of_refreshed)
  have p: "pop int_of args now st = pop_body stack_id st'"
    unfolding pop_def st'_def using assms by (rule decorated)
  have app: "set_array stack_id xs st' =
      AList.map_entry stack_id (\<lambda>e. \<lparr>array = xs, expiry = t\<rparr>) st" for xs
    unfolding st'_def using assms(2) by (rule set_array_refreshed)
  show ?thesis
    unfolding st'_def [symmetric] p
    using m app by (simp add: pop_body_def array_pop_def)
qed

lemma size_present:
  assumes "py_int int_of (args ''id'') = Some stack_id" and "map_of st stack_id = Some s"
    and "t = now + 60 * 60"
  shows "size_view int_of args now st =
     (Inr (Size (length (array s))), AList.map_entry stack_id (\<lambda>e. e\<lparr>expiry := t\<rparr>) st)"
proof -
  define st' where "st' = AList.map_entry stack_id (\<lambda>e. e\<lparr>expiry := t\<rparr>) st"
  have m: "map_of st' stack_id = Some (s\<lparr>expiry := t\<rparr>)"
    unfolding st'_def using assms(2) by (rule map_of_refreshed)
  have p: "size_view int_of args now st = size_body stack_id st'"
    unfolding size_view_def st'_def using assms by (rule decorated)
  show ?thesis
    unfolding st'_def [symmetric] p using m by (simp add: size_body_def)
qed

lemma peek_present:
  assumes "py_int int_of (args ''id'') = Some stack_id" and "map_of st stack_id = Some s"
    and "t = now + 60 * 60"
  shows "peek int_of args now st =
     (if array s = [] then Inl StackIsEmpty else Inr (Top (last (array s))),
      AList.map_entry stack_id (\<lambda>e. e\<lparr>expiry := t\<rparr>) st)"
proof -
  define st' where "st' = AList.map_entry stack_id (\<lambda>e. e\<lparr>expiry := t\<rparr>) st"
  have m: "map_of st' stack_id = Some (s\<lparr>expiry := t\<rparr>)"
    unfolding st'_def using assms(2) by (rule map_of_refreshed)
  have p: "peek int_of args now st = peek_body stack_id st'"
    unfolding peek_def st'_def using assms by (rule decorated)
  show ?thesis
    unfolding st'_def [symmetric] p using m by (simp add: peek_body_def)
qed

lemma destroy_present:
  assumes "py_int int_of (args ''id'') = Some stack_id" and "map_of st stack_id = Some s"
    and "t = now + 60 * 60"
  shows "destroy int_of args now st =
     (Inr Ok, AList.delete stack_id (AList.map_entry stack_id (\<lambda>e. e\<lparr>expiry := t\<rparr>) st))"
proof -
  define st' where "st' = AList.map_entry stack_id (\<lambda>e. e\<lparr>expiry := t\<rparr>) st"
  have m: "map_of st' stack_id = Some (s\<lparr>expiry := t\<rparr>)"
    unfolding st'_def using assms(2) by (rule map_of_refreshed)
  have p: "destroy int_of args now st = destroy_body stack_id st'"
    unfolding destroy_def st'_def using assms by (rule decorated)
  show ?thesis
    unfolding st'_def [symmetric] p using m by (simp add: destroy_body_def)
qed

lemma pop_bulk_present:
  assumes "py_int int_of (args ''id'') = Some stack_id" and "map_of st stack_id = Some s"
    and "t = now + 60 * 60"
  shows "pop_bulk int_of args now st =
     (case py_int int_of (args ''count'') of
        None \<Rightarrow> (Inl CountMustBeInteger, AList.map_entry stack_id (\<lambda>e. e\<lparr>expiry := t\<rparr>) st)
      | Some count \<Rightarrow>
          if int (length (array s)) < count
          then (Inl StackUnderflow, AList.map_entry stack_id (\<lambda>e. e\<lparr>expiry := t\<rparr>) st)
          else (Inr (PoppedBulk (take (nat count) (rev (array s)))),
                AList.map_entry stack_id
                  (\<lambda>e. \<lparr>array = take (length (array s) - nat count) (array s), expiry = t\<rparr>) st))"
proof -
  define st' where "st' = AList.map_entry stack_id (\<lambda>e. e\<lparr>expiry := t\<rparr>) st"
  have m: "map_of st' stack_id = Some (s\<lparr>expiry := t\<rparr>)"
    unfolding st'_def using assms(2) by (rule map_of_refreshed)
  have p: "pop_bulk int_of args now st = pop_bulk_body int_of args stack_id st'"
    unfolding pop_bulk_def st'_def using assms by (rule decorated)
  have app: "set_array stack_id xs st' =
      AList.map_entry stack_id (\<lambda>e. \<lparr>array = xs, expiry = t\<rparr>) st" for xs
    unfolding st'_def using assms(2) by (rule set_array_refreshed)
  show ?thesis
  proof (cases "py_int int_of (args ''count'')")
    case None
    then show ?thesis
      unfolding st'_def [symmetric] p by (simp add: pop_bulk_body_def)
  next
    case (Some count)
    from pop_bulk_body_eq [where args = args, OF m Some] app Some show ?thesis
      unfolding st'_def [symmetric] p by simp
  qed
qed

lemma push_bulk_present:
  assumes "py_int int_of (args ''id'') = Some stack_id" and "map_of st stack_id = Some s"
    and "t = now + 60 * 60"
  shows "push_bulk int_of args now st =
     (case args ''values'' of
        None \<Rightarrow> (Inl ValuesMustBeProvided, AList.map_entry stack_id (\<lambda>e. e\<lparr>expiry := t\<rparr>) st)
      | Some str \<Rightarrow>
          if str = []
          then (Inl ValuesMustBeProvided, AList.map_entry stack_id (\<lambda>e. e\<lparr>expiry := t\<rparr>) st)
          else (case those (map int_of (split CHR '','' str)) of
                  None \<Rightarrow> (Inl AllValuesMustBeIntegers,
                            AList.map_entry stack_id (\<lambda>e. e\<lparr>expiry := t\<rparr>) st)
                | Some vs \<Rightarrow>
                    (if length (takeWhile int64 vs) > MAX_STACK_SIZE - length (array s)
                     then Inl StackOverflow
                     else if takeWhile int64 vs = vs then Inr Ok else Inl ValueTooLarge,
                     AList.map_entry stack_id
                       (\<lambda>e. \<lparr>array = array s @ take (MAX_STACK_SIZE - length (array s))
                                                   (takeWhile int64 vs),
                             expiry = t\<rparr>) st)))"
proof -
  define st' where "st' = AList.map_entry stack_id (\<lambda>e. e\<lparr>expiry := t\<rparr>) st"
  have m: "map_of st' stack_id = Some (s\<lparr>expiry := t\<rparr>)"
    unfolding st'_def using assms(2) by (rule map_of_refreshed)
  have p: "push_bulk int_of args now st = push_bulk_body int_of args stack_id st'"
    unfolding push_bulk_def st'_def using assms by (rule decorated)
  have app: "set_array stack_id xs st' =
      AList.map_entry stack_id (\<lambda>e. \<lparr>array = xs, expiry = t\<rparr>) st" for xs
    unfolding st'_def using assms(2) by (rule set_array_refreshed)
  have tk: "take n (takeWhile P xs) = take n xs" if "n \<le> length (takeWhile P xs)"
    for n P and xs :: "int list"
  proof -
    have "take n xs = take n (takeWhile P xs @ dropWhile P xs)" by simp
    also have "\<dots> = take n (takeWhile P xs)" using that by (simp del: takeWhile_dropWhile_id)
    finally show ?thesis by simp
  qed
  show ?thesis
  proof (cases "args ''values''")
    case None
    then show ?thesis
      unfolding st'_def [symmetric] p by (simp add: push_bulk_body_def)
  next
    case (Some str)
    show ?thesis
    proof (cases "str = []")
      case True
      with Some show ?thesis
        unfolding st'_def [symmetric] p by (simp add: push_bulk_body_def)
    next
      case ne: False
      show ?thesis
      proof (cases "those (map int_of (split CHR '','' str))")
        case None
        from push_bulk_body_not_integers [where args = args, OF Some ne None, of stack_id st']
        show ?thesis
          unfolding st'_def [symmetric] p using Some ne None by simp
      next
        case vs: (Some vs)
        define room where "room = MAX_STACK_SIZE - length (array s)"
        define ok where "ok = takeWhile int64 vs"
        have b: "push_bulk_body int_of args stack_id st' =
            (if length ok > room
             then (Inl StackOverflow, set_array stack_id (array s @ take room vs) st')
             else if ok = vs then (Inr Ok, set_array stack_id (array s @ vs) st')
             else (Inl ValueTooLarge, set_array stack_id (array s @ ok) st'))"
          using push_bulk_body_eq [where args = args, OF m Some ne vs]
          unfolding room_def ok_def by simp
        have c: "take room ok = (if length ok > room then take room vs else ok)"
          unfolding ok_def by (simp add: tk)
        have "push_bulk_body int_of args stack_id st' =
            (if length ok > room then Inl StackOverflow
             else if ok = vs then Inr Ok else Inl ValueTooLarge,
             AList.map_entry stack_id (\<lambda>e. \<lparr>array = array s @ take room ok, expiry = t\<rparr>) st)"
          unfolding b c app by auto
        then show ?thesis
          unfolding st'_def [symmetric] p room_def ok_def using Some ne vs by simp
      qed
    qed
  qed
qed

subsection \<open>Expiry refresh\<close>

text \<open>
  Claim C9. For an identifier that is present in the dictionary, \<^verbatim>\<open>push\<close>,
  \<^verbatim>\<open>push_bulk\<close>, \<^verbatim>\<open>pop\<close>, \<^verbatim>\<open>pop_bulk\<close>, \<^verbatim>\<open>peek\<close> and \<^verbatim>\<open>size\<close> leave the entry with
  the expiry \<open>now + 60 * 60\<close>, whatever they answer, an error included; and \<^verbatim>\<open>destroy\<close>
  is its body run on the dictionary in which the entry has that expiry: the refresh is
  made by the lookup, before the body of the handler runs.
\<close>

theorem expiry_refreshed_by_lookup:
  assumes "py_int int_of (args ''id'') = Some stack_id" and "map_of st stack_id = Some s"
  shows "map_option expiry (map_of (snd (push int_of args now st)) stack_id) = Some (now + 60 * 60)
       \<and> map_option expiry (map_of (snd (push_bulk int_of args now st)) stack_id) =
           Some (now + 60 * 60)
       \<and> map_option expiry (map_of (snd (pop int_of args now st)) stack_id) = Some (now + 60 * 60)
       \<and> map_option expiry (map_of (snd (pop_bulk int_of args now st)) stack_id) =
           Some (now + 60 * 60)
       \<and> map_option expiry (map_of (snd (peek int_of args now st)) stack_id) = Some (now + 60 * 60)
       \<and> map_option expiry (map_of (snd (size_view int_of args now st)) stack_id) =
           Some (now + 60 * 60)
       \<and> (\<exists>st'. refresh_stack_expiry now stack_id st = Some st'
             \<and> map_option expiry (map_of st' stack_id) = Some (now + 60 * 60)
             \<and> destroy int_of args now st = destroy_body stack_id st')"
proof -
  define t where "t = now + 60 * 60"
  note e = map_of_map_entry_Some [OF assms(2)]
  have 1: "map_option expiry (map_of (snd (push int_of args now st)) stack_id) = Some t"
    unfolding push_present [where args = args, OF assms t_def]
    by (simp add: e split: option.splits)
  have 2: "map_option expiry (map_of (snd (push_bulk int_of args now st)) stack_id) = Some t"
    unfolding push_bulk_present [where args = args, OF assms t_def]
    by (simp add: e split: option.splits)
  have 3: "map_option expiry (map_of (snd (pop int_of args now st)) stack_id) = Some t"
    unfolding pop_present [where args = args, OF assms t_def]
    by (simp add: e)
  have 4: "map_option expiry (map_of (snd (pop_bulk int_of args now st)) stack_id) = Some t"
    unfolding pop_bulk_present [where args = args, OF assms t_def]
    by (simp add: e split: option.splits)
  have 5: "map_option expiry (map_of (snd (peek int_of args now st)) stack_id) = Some t"
    unfolding peek_present [where args = args, OF assms t_def]
    by (simp add: e)
  have 6: "map_option expiry (map_of (snd (size_view int_of args now st)) stack_id) = Some t"
    unfolding size_present [where args = args, OF assms t_def]
    by (simp add: e)
  have r: "refresh_stack_expiry now stack_id st =
      Some (AList.map_entry stack_id (\<lambda>e. e\<lparr>expiry := t\<rparr>) st)"
    using assms(2) by (simp add: refresh_stack_expiry_def t_def)
  have d: "destroy int_of args now st =
      destroy_body stack_id (AList.map_entry stack_id (\<lambda>e. e\<lparr>expiry := t\<rparr>) st)"
    unfolding destroy_def using assms t_def by (rule decorated)
  have 7: "\<exists>st'. refresh_stack_expiry now stack_id st = Some st'
             \<and> map_option expiry (map_of st' stack_id) = Some t
             \<and> destroy int_of args now st = destroy_body stack_id st'"
    using r d by (simp add: e)
  show ?thesis
    unfolding t_def [symmetric] using 1 2 3 4 5 6 7 by blast
qed

theorem expiry_refreshed_by_lookup_witness:
  "pop decimal [''id'' \<mapsto> ''7''] 10 [(7, \<lparr>array = [], expiry = 20\<rparr>)] =
     (Inl StackUnderflow, [(7, \<lparr>array = [], expiry = 3610\<rparr>)])
   \<and> push decimal [''id'' \<mapsto> ''7'', ''value'' \<mapsto> ''x''] 10 [(7, \<lparr>array = [], expiry = 20\<rparr>)] =
     (Inl ValueMustBeInteger, [(7, \<lparr>array = [], expiry = 3610\<rparr>)])
   \<and> map_option expiry
        (map_of (snd (push decimal [''id'' \<mapsto> ''7'', ''value'' \<mapsto> ''9223372036854775808'']
                        10 [(7, \<lparr>array = [], expiry = 20\<rparr>)])) 7) = Some 3610"
  using expiry_refreshed_by_lookup [of decimal "[''id'' \<mapsto> ''7'']" 7
      "[(7, \<lparr>array = [], expiry = 20\<rparr>)]" "\<lparr>array = [], expiry = 20\<rparr>" 10]
    expiry_refreshed_by_lookup [of decimal
      "[''id'' \<mapsto> ''7'', ''value'' \<mapsto> ''9223372036854775808'']" 7
      "[(7, \<lparr>array = [], expiry = 20\<rparr>)]" "\<lparr>array = [], expiry = 20\<rparr>" 10]
  by (simp add: py_int_def decimal_def digit_def pop_def push_def require_valid_stack_id_def
      refresh_stack_expiry_def pop_body_def push_body_def)

subsection \<open>Round trip\<close>

lemma map_entry_const_twice:
  "AList.map_entry k (\<lambda>e. b) (AList.map_entry k (\<lambda>e. a) st) = AList.map_entry k (\<lambda>e. b) st"
  by (simp add: map_entry_twice comp_def)

lemma map_entry_update_after_const:
  "AList.map_entry k (\<lambda>e. e\<lparr>expiry := t\<rparr>) (AList.map_entry k (\<lambda>e. a) st) =
   AList.map_entry k (\<lambda>e. a\<lparr>expiry := t\<rparr>) st"
  by (simp add: map_entry_twice comp_def)

lemma map_entry_restore:
  assumes "map_of st k = Some s" and "array s = xs"
  shows "AList.map_entry k (\<lambda>e. \<lparr>array = xs, expiry = t\<rparr>) st =
         AList.map_entry k (\<lambda>e. e\<lparr>expiry := t\<rparr>) st"
  by (rule map_entry_cong_at [OF assms(1)]) (use assms(2) in simp)

text \<open>
  Claim C6. On an existing stack with at least \<open>k\<close> elements, \<^verbatim>\<open>pop_bulk\<close> of \<open>k\<close> values
  followed by \<^verbatim>\<open>push_bulk\<close> of the values it returned, in reverse order, restores the
  array, provided the second call answers neither "Stack overflow" nor "Value is too
  large": the dictionary is then the one before the two calls with the expiry of the entry
  refreshed. The \<^verbatim>\<open>values\<close> argument of the second call is any string whose pieces parse
  to the reversed values; for \<open>k = 0\<close> there is nothing to send, the argument is absent or
  empty, and the second call answers "Values must be provided" and changes nothing.
\<close>

theorem pop_bulk_push_bulk_round_trip:
  assumes "py_int int_of (args1 ''id'') = Some stack_id"
    and "py_int int_of (args2 ''id'') = Some stack_id"
    and "map_of st stack_id = Some s"
    and "py_int int_of (args1 ''count'') = Some (int k)"
    and "k \<le> length (array s)"
    and "pop_bulk int_of args1 now1 st = (Inr (PoppedBulk vs), st1)"
    and "(vs = [] \<and> (args2 ''values'' = None \<or> args2 ''values'' = Some []))
       \<or> (\<exists>str. args2 ''values'' = Some str \<and> str \<noteq> []
             \<and> those (map int_of (split CHR '','' str)) = Some (rev vs))"
    and "fst (push_bulk int_of args2 now2 st1) \<noteq> Inl StackOverflow"
    and "fst (push_bulk int_of args2 now2 st1) \<noteq> Inl ValueTooLarge"
  shows "snd (push_bulk int_of args2 now2 st1) =
           AList.map_entry stack_id (\<lambda>e. e\<lparr>expiry := now2 + 60 * 60\<rparr>) st
       \<and> map_option array (map_of (snd (push_bulk int_of args2 now2 st1)) stack_id) =
           Some (array s)"
proof -
  define t1 where "t1 = now1 + 60 * 60"
  define t2 where "t2 = now2 + 60 * 60"
  define rest where "rest = take (length (array s) - k) (array s)"
  define s1 where "s1 = \<lparr>array = rest, expiry = t1\<rparr>"
  have popped: "vs = take k (rev (array s))"
    and st1: "st1 = AList.map_entry stack_id (\<lambda>e. s1) st"
    using assms(6) assms(4,5)
    unfolding pop_bulk_present [where args = args1, OF assms(1,3) t1_def] s1_def rest_def
    by simp_all
  have m1: "map_of st1 stack_id = Some s1"
    unfolding st1 using assms(3) by (simp add: map_of_map_entry_Some)
  have whole: "rest @ rev vs = array s"
    unfolding rest_def popped by (simp add: take_rev)
  note pb = push_bulk_present [where args = args2, OF assms(2) m1 t2_def]
  consider (nothing) "vs = []" "args2 ''values'' = None \<or> args2 ''values'' = Some []"
    | (batch) str where "args2 ''values'' = Some str" "str \<noteq> []"
        "those (map int_of (split CHR '','' str)) = Some (rev vs)"
    using assms(7) by blast
  then have "snd (push_bulk int_of args2 now2 st1) =
      AList.map_entry stack_id (\<lambda>e. \<lparr>array = array s, expiry = t2\<rparr>) st"
  proof cases
    case nothing
    then have "snd (push_bulk int_of args2 now2 st1) =
        AList.map_entry stack_id (\<lambda>e. e\<lparr>expiry := t2\<rparr>) st1"
      unfolding pb by auto
    also have "\<dots> = AList.map_entry stack_id (\<lambda>e. s1\<lparr>expiry := t2\<rparr>) st"
      unfolding st1 by (rule map_entry_update_after_const)
    finally show ?thesis
      using whole \<open>vs = []\<close> by (simp add: s1_def)
  next
    case v: batch
    define ok where "ok = takeWhile int64 (rev vs)"
    define room where "room = MAX_STACK_SIZE - length rest"
    have r: "push_bulk int_of args2 now2 st1 =
        (if length ok > room then Inl StackOverflow
         else if ok = rev vs then Inr Ok else Inl ValueTooLarge,
         AList.map_entry stack_id (\<lambda>e. \<lparr>array = rest @ take room ok, expiry = t2\<rparr>) st1)"
      unfolding pb ok_def room_def using v by (simp add: s1_def)
    from assms(8,9) have fits: "\<not> length ok > room" and all: "ok = rev vs"
      unfolding r by (auto split: if_splits)
    then have "rest @ take room ok = array s"
      using whole by simp
    then have "snd (push_bulk int_of args2 now2 st1) =
        AList.map_entry stack_id (\<lambda>e. \<lparr>array = array s, expiry = t2\<rparr>) st1"
      unfolding r by simp
    then show ?thesis
      unfolding st1 by (simp only: map_entry_const_twice)
  qed
  also have "\<dots> = AList.map_entry stack_id (\<lambda>e. e\<lparr>expiry := t2\<rparr>) st"
    using assms(3) by (rule map_entry_restore) simp
  finally have res: "snd (push_bulk int_of args2 now2 st1) =
      AList.map_entry stack_id (\<lambda>e. e\<lparr>expiry := t2\<rparr>) st" .
  then show ?thesis
    unfolding t2_def [symmetric] using assms(3) by (simp add: map_of_map_entry_Some)
qed

theorem pop_bulk_push_bulk_round_trip_witness:
  "pop_bulk decimal [''id'' \<mapsto> ''7'', ''count'' \<mapsto> ''2''] 10
      [(7, \<lparr>array = [1, 2, 3], expiry = 20\<rparr>)] =
     (Inr (PoppedBulk [3, 2]), [(7, \<lparr>array = [1], expiry = 3610\<rparr>)])
   \<and> push_bulk decimal [''id'' \<mapsto> ''7'', ''values'' \<mapsto> ''2,3''] 30
      [(7, \<lparr>array = [1], expiry = 3610\<rparr>)] =
     (Inr Ok, [(7, \<lparr>array = [1, 2, 3], expiry = 3630\<rparr>)])"
proof -
  have p: "pop_bulk decimal [''id'' \<mapsto> ''7'', ''count'' \<mapsto> ''2''] 10
      [(7, \<lparr>array = [1, 2, 3], expiry = 20\<rparr>)] =
     (Inr (PoppedBulk [3, 2]), [(7, \<lparr>array = [1], expiry = 3610\<rparr>)])"
    by (simp add: pop_bulk_def require_valid_stack_id_def py_int_def decimal_def digit_def
        refresh_stack_expiry_def pop_bulk_body_def array_pop_def set_array_def
        eval_nat_numeral)
  have q: "fst (push_bulk decimal [''id'' \<mapsto> ''7'', ''values'' \<mapsto> ''2,3''] 30
      [(7, \<lparr>array = [1], expiry = 3610\<rparr>)]) = Inr Ok"
    by (simp add: push_bulk_def require_valid_stack_id_def py_int_def decimal_def digit_def
        refresh_stack_expiry_def push_bulk_body_def array_append_def int64_def
        MAX_STACK_SIZE_def set_array_def)
  from pop_bulk_push_bulk_round_trip [of decimal "[''id'' \<mapsto> ''7'', ''count'' \<mapsto> ''2'']" 7
      "[''id'' \<mapsto> ''7'', ''values'' \<mapsto> ''2,3'']" "[(7, \<lparr>array = [1, 2, 3], expiry = 20\<rparr>)]"
      "\<lparr>array = [1, 2, 3], expiry = 20\<rparr>" 2 10 "[3, 2]" "[(7, \<lparr>array = [1], expiry = 3610\<rparr>)]" 30,
      OF _ _ _ _ _ p]
  have "snd (push_bulk decimal [''id'' \<mapsto> ''7'', ''values'' \<mapsto> ''2,3''] 30
      [(7, \<lparr>array = [1], expiry = 3610\<rparr>)]) = [(7, \<lparr>array = [1, 2, 3], expiry = 3630\<rparr>)]"
    by (simp add: q py_int_def decimal_def digit_def)
  with p q show ?thesis by (simp add: prod_eq_iff)
qed

subsection \<open>The LIFO law\<close>

lemma run_append:
  "run (cs @ ds) st =
     (case run cs st of (rs, st') \<Rightarrow> (case run ds st' of (rs', st'') \<Rightarrow> (rs @ rs', st'')))"
  by (induction cs arbitrary: st) (auto split: prod.splits)

lemma push_step:
  assumes "py_int int_of (args ''id'') = Some k"
    and "map_option array (map_of st k) = Some xs"
    and "fst (push int_of args now st) = Inr Ok"
  shows "\<exists>v. py_int int_of (args ''value'') = Some v
           \<and> map_option array (map_of (snd (push int_of args now st)) k) = Some (xs @ [v])"
proof -
  from assms(2) obtain s where s: "map_of st k = Some s" "array s = xs" by auto
  note p = push_present [where args = args, OF assms(1) s(1) refl]
  show ?thesis
    using assms(3) s(2) unfolding p
    by (auto simp add: map_of_map_entry_Some [OF s(1)] split: option.splits if_splits)
qed

lemma pushes_array:
  assumes "\<forall>(a, t) \<in> set pushes. py_int int_of (a ''id'') = Some k"
    and "map (\<lambda>(a, t). py_int int_of (a ''value'')) pushes = map Some vs"
    and "run (map (\<lambda>(a, t). push int_of a t) pushes) st = (rs, st1)"
    and "\<forall>r \<in> set rs. r = Inr Ok"
    and "map_option array (map_of st k) = Some xs"
  shows "map_option array (map_of st1 k) = Some (xs @ vs)"
  using assms
proof (induction pushes arbitrary: st rs vs xs st1)
  case Nil
  then show ?case by simp
next
  case (Cons p pushes)
  obtain a t where p: "p = (a, t)" by (cases p)
  obtain r st' where call: "push int_of a t st = (r, st')" by (cases "push int_of a t st")
  obtain rs' st'' where rest: "run (map (\<lambda>(a, t). push int_of a t) pushes) st' = (rs', st'')"
    by (cases "run (map (\<lambda>(a, t). push int_of a t) pushes) st'")
  from Cons.prems(3) p call rest have rs: "rs = r # rs'" and st1: "st1 = st''" by simp_all
  from Cons.prems(2) p obtain v vs' where vs: "vs = v # vs'"
    and v: "py_int int_of (a ''value'') = Some v"
    and vs': "map (\<lambda>(a, t). py_int int_of (a ''value'')) pushes = map Some vs'"
    by (cases vs) auto
  from Cons.prems(4) rs have ok: "r = Inr Ok" and oks: "\<forall>r \<in> set rs'. r = Inr Ok" by simp_all
  from Cons.prems(1) p have id: "py_int int_of (a ''id'') = Some k"
    and ids: "\<forall>(a, t) \<in> set pushes. py_int int_of (a ''id'') = Some k" by simp_all
  from push_step [where args = a, OF id Cons.prems(5), of t] call ok v
  have "map_option array (map_of st' k) = Some (xs @ [v])" by simp
  from Cons.IH [OF ids vs' rest oks this] show ?case
    unfolding st1 vs by simp
qed

lemma pops_array:
  assumes "\<forall>(a, t) \<in> set pops. py_int int_of (a ''id'') = Some k"
    and "length pops = length xs"
    and "map_option array (map_of st k) = Some xs"
  shows "\<exists>st'. run (map (\<lambda>(a, t). pop int_of a t) pops) st =
                  (map (Inr \<circ> Popped) (rev xs), st')
              \<and> map_option array (map_of st' k) = Some []"
  using assms
proof (induction pops arbitrary: st xs)
  case Nil
  then show ?case by simp
next
  case (Cons p pops)
  obtain a t where p: "p = (a, t)" by (cases p)
  from Cons.prems(2) obtain ys y where xs: "xs = ys @ [y]"
    by (cases xs rule: rev_cases) auto
  from Cons.prems(3) obtain s where s: "map_of st k = Some s" "array s = xs" by auto
  from Cons.prems(1) p have id: "py_int int_of (a ''id'') = Some k"
    and ids: "\<forall>(a, t) \<in> set pops. py_int int_of (a ''id'') = Some k" by simp_all
  define st1 where "st1 = snd (pop int_of a t st)"
  have call: "pop int_of a t st = (Inr (Popped y), st1)"
    unfolding st1_def pop_present [where args = a, OF id s(1) refl] using s(2) xs by simp
  have arr: "map_option array (map_of st1 k) = Some ys"
    unfolding st1_def pop_present [where args = a, OF id s(1) refl] using s(2) xs
    by (simp add: map_of_map_entry_Some [OF s(1)])
  from Cons.prems(2) xs have "length pops = length ys" by simp
  from Cons.IH [OF ids this arr] obtain st' where
    "run (map (\<lambda>(a, t). pop int_of a t) pops) st1 = (map (Inr \<circ> Popped) (rev ys), st')"
    "map_option array (map_of st' k) = Some []" by blast
  then show ?case
    using p call xs by simp
qed

text \<open>
  Claim C5. On a stack that \<^verbatim>\<open>create\<close> has just made, after any sequence of \<^verbatim>\<open>push\<close> calls
  that all answer "Ok", \<^verbatim>\<open>size\<close> answers the number of pushes, as many \<^verbatim>\<open>pop\<close> calls
  then answer the pushed values in the reverse of the order of the pushes, and one more
  \<^verbatim>\<open>pop\<close> answers "Stack underflow". The calls may carry any readings of the clock.
\<close>

theorem lifo:
  assumes "create stack_id now0 st = (Inr (Created stack_id), st0)"
    and "\<forall>(a, t) \<in> set pushes. py_int int_of (a ''id'') = Some stack_id"
    and "map (\<lambda>(a, t). py_int int_of (a ''value'')) pushes = map Some vs"
    and "run (map (\<lambda>(a, t). push int_of a t) pushes) st0 = (rs, st1)"
    and "\<forall>r \<in> set rs. r = Inr Ok"
    and "py_int int_of (args ''id'') = Some stack_id"
    and "\<forall>(a, t) \<in> set pops. py_int int_of (a ''id'') = Some stack_id"
    and "length pops = length pushes"
    and "py_int int_of (args' ''id'') = Some stack_id"
  shows "fst (run (size_view int_of args now # map (\<lambda>(a, t). pop int_of a t) pops
                    @ [pop int_of args' now']) st1) =
         Inr (Size (length pushes)) # map (Inr \<circ> Popped) (rev vs) @ [Inl StackUnderflow]"
proof -
  from assms(1) have "st0 = AList.update stack_id \<lparr>array = [], expiry = now0 + 60 * 60\<rparr> st"
    by (auto simp add: create_def split: if_splits)
  then have fresh: "map_option array (map_of st0 stack_id) = Some []"
    by (simp add: AList.update_conv')
  from pushes_array [OF assms(2,3,4,5) fresh]
  have a1: "map_option array (map_of st1 stack_id) = Some vs" by simp
  then obtain s1 where s1: "map_of st1 stack_id = Some s1" "array s1 = vs" by auto
  from assms(3) have len: "length pushes = length vs"
    by (metis length_map)
  define st2 where "st2 = snd (size_view int_of args now st1)"
  have sz: "size_view int_of args now st1 = (Inr (Size (length pushes)), st2)"
    unfolding st2_def size_present [where args = args, OF assms(6) s1(1) refl]
    using s1(2) len by simp
  have a2: "map_option array (map_of st2 stack_id) = Some vs"
    unfolding st2_def size_present [where args = args, OF assms(6) s1(1) refl]
    using s1(2) by (simp add: map_of_map_entry_Some [OF s1(1)])
  from assms(8) len have "length pops = length vs" by simp
  from pops_array [OF assms(7) this a2] obtain st3 where
    ps: "run (map (\<lambda>(a, t). pop int_of a t) pops) st2 = (map (Inr \<circ> Popped) (rev vs), st3)"
    and a3: "map_option array (map_of st3 stack_id) = Some []" by blast
  from a3 obtain s3 where s3: "map_of st3 stack_id = Some s3" "array s3 = []" by auto
  obtain st4 where under: "pop int_of args' now' st3 = (Inl StackUnderflow, st4)"
    unfolding pop_present [where args = args', OF assms(9) s3(1) refl] using s3(2) by simp
  then have "run [pop int_of args' now'] st3 = ([Inl StackUnderflow], st4)"
    by simp
  with sz ps show ?thesis
    by (simp add: run_append)
qed

lemmas handler_defs = push_def pop_def size_view_def require_valid_stack_id_def py_int_def
  decimal_def digit_def refresh_stack_expiry_def push_body_def pop_body_def size_body_def
  array_append_def array_pop_def int64_def MAX_STACK_SIZE_def set_array_def

theorem lifo_witness:
  "create 7 0 [] = (Inr (Created 7), [(7, \<lparr>array = [], expiry = 3600\<rparr>)])
   \<and> run [push decimal [''id'' \<mapsto> ''7'', ''value'' \<mapsto> ''5''] 1,
           push decimal [''id'' \<mapsto> ''7'', ''value'' \<mapsto> ''7''] 2]
        [(7, \<lparr>array = [], expiry = 3600\<rparr>)] =
       ([Inr Ok, Inr Ok], [(7, \<lparr>array = [5, 7], expiry = 3602\<rparr>)])
   \<and> fst (run [size_view decimal [''id'' \<mapsto> ''7''] 3, pop decimal [''id'' \<mapsto> ''7''] 4,
                pop decimal [''id'' \<mapsto> ''7''] 5, pop decimal [''id'' \<mapsto> ''7''] 6]
             [(7, \<lparr>array = [5, 7], expiry = 3602\<rparr>)]) =
       [Inr (Size 2), Inr (Popped 7), Inr (Popped 5), Inl StackUnderflow]"
proof -
  have c: "create 7 0 [] = (Inr (Created 7), [(7, \<lparr>array = [], expiry = 3600\<rparr>)])"
    by (simp add: create_def MAX_STACKS_def)
  have r: "run (map (\<lambda>(a, t). push decimal a t)
                 [([''id'' \<mapsto> ''7'', ''value'' \<mapsto> ''5''], 1),
                  ([''id'' \<mapsto> ''7'', ''value'' \<mapsto> ''7''], 2)])
        [(7, \<lparr>array = [], expiry = 3600\<rparr>)] =
       ([Inr Ok, Inr Ok], [(7, \<lparr>array = [5, 7], expiry = 3602\<rparr>)])"
    by (simp add: handler_defs)
  from lifo [OF c _ _ r, of "[5, 7]" "[''id'' \<mapsto> ''7'']"
      "[([''id'' \<mapsto> ''7''], 4), ([''id'' \<mapsto> ''7''], 5)]" "[''id'' \<mapsto> ''7'']" 3 6]
  have "fst (run [size_view decimal [''id'' \<mapsto> ''7''] 3, pop decimal [''id'' \<mapsto> ''7''] 4,
                pop decimal [''id'' \<mapsto> ''7''] 5, pop decimal [''id'' \<mapsto> ''7''] 6]
             [(7, \<lparr>array = [5, 7], expiry = 3602\<rparr>)]) =
       [Inr (Size 2), Inr (Popped 7), Inr (Popped 5), Inl StackUnderflow]"
    by (simp add: py_int_def decimal_def digit_def del: run.simps)
  with c r show ?thesis by (simp del: run.simps)
qed

subsection \<open>The expiry sweep\<close>

lemma delete_middle:
  assumes "distinct (map fst (kept @ (k, s) # items))"
  shows "AList.delete k (kept @ (k, s) # items) = kept @ items"
proof -
  from assms have "k \<notin> fst ` set kept" and "k \<notin> fst ` set items" by auto
  then have "AList.delete k kept = kept" and "AList.delete k items = items"
    by simp_all
  then show ?thesis
    by (simp add: AList.delete_eq)
qed

lemma sweep_loop_eq:
  "distinct (map fst (kept @ items)) \<Longrightarrow>
   sweep_loop tick i items (kept @ items) =
     kept @ map snd (filter (\<lambda>(j, (k, s)). \<not> expiry s < tick j) (enumerate i items))"
proof (induction items arbitrary: kept i)
  case Nil
  then show ?case by simp
next
  case (Cons p items)
  obtain k s where p: "p = (k, s)" by (cases p)
  show ?case
  proof (cases "expiry s < tick i")
    case True
    from Cons.prems have d: "distinct (map fst (kept @ items))" by (auto simp: p)
    from Cons.prems have "AList.delete k (kept @ (k, s) # items) = kept @ items"
      unfolding p by (rule delete_middle)
    with True Cons.IH [OF d, of "Suc i"] show ?thesis
      by (simp add: p)
  next
    case False
    from Cons.prems have d: "distinct (map fst ((kept @ [(k, s)]) @ items))" by (simp add: p)
    from False Cons.IH [OF d, of "Suc i"] show ?thesis
      by (simp add: p)
  qed
qed

lemma remove_expired_stacks_eq:
  "distinct (map fst st) \<Longrightarrow>
   remove_expired_stacks tick st =
     map snd (filter (\<lambda>(j, (k, s)). \<not> expiry s < tick j) (enumerate 0 st))"
  using sweep_loop_eq [of "[]" st tick 0] by (simp add: remove_expired_stacks_def)

lemma filter_enumerate_const:
  "(\<forall>j. i \<le> j \<and> j < i + length xs \<longrightarrow> P j = Q) \<Longrightarrow>
   map snd (filter (\<lambda>(j, x). R (P j) x) (enumerate i xs)) = filter (R Q) xs"
proof (induction xs arbitrary: i)
  case Nil
  then show ?case by simp
next
  case (Cons x xs)
  from Cons.prems have "P i = Q" by simp
  moreover from Cons.prems have "\<forall>j. Suc i \<le> j \<and> j < Suc i + length xs \<longrightarrow> P j = Q" by simp
  from Cons.IH [OF this] have
    "map snd (filter (\<lambda>(j, x). R (P j) x) (enumerate (Suc i) xs)) = filter (R Q) xs" .
  ultimately show ?case by simp
qed

lemma survivor:
  assumes "distinct (map fst st)"
    and "(k, s) \<in> set (remove_expired_stacks tick st)"
  shows "\<exists>i < length st. st ! i = (k, s) \<and> \<not> expiry s < tick i"
proof -
  from assms(2) obtain j where "(j, (k, s)) \<in> set (enumerate 0 st)" "\<not> expiry s < tick j"
    unfolding remove_expired_stacks_eq [OF assms(1)] by auto
  then show ?thesis
    by (auto simp: in_set_enumerate_eq)
qed

text \<open>
  Claim C7, as the code has it. The sweep reads the clock once for every entry it examines,
  in dictionary order, and removes exactly the entries whose expiry is strictly less than
  the reading taken for them; the entries that remain are unchanged. When no reading is
  earlier than a time \<open>t0\<close> (the start of the sweep), every entry with expiry below \<open>t0\<close> has
  been deleted and every entry that remains has an expiry of at least \<open>t0\<close>; when no
  reading is later than \<open>t1\<close>, every entry with expiry at least \<open>t1\<close> remains; and when all
  readings are one time \<open>now\<close>, the sweep removes exactly the entries with expiry below
  \<open>now\<close>. Every request is served on the dictionary that the sweep has left.
\<close>

theorem sweep_removes_expired:
  assumes "distinct (map fst st)"
  shows "remove_expired_stacks tick st =
           map snd (filter (\<lambda>(i, (k, s)). \<not> expiry s < tick i) (enumerate 0 st))
       \<and> (\<forall>k s. map_of (remove_expired_stacks tick st) k = Some s \<longrightarrow> map_of st k = Some s)
       \<and> ((\<forall>i < length st. t0 \<le> tick i) \<longrightarrow>
            (\<forall>k s. map_of st k = Some s \<and> expiry s < t0 \<longrightarrow>
                   map_of (remove_expired_stacks tick st) k = None)
          \<and> (\<forall>k s. map_of (remove_expired_stacks tick st) k = Some s \<longrightarrow> t0 \<le> expiry s))
       \<and> ((\<forall>i < length st. tick i \<le> t1) \<longrightarrow>
            (\<forall>k s. map_of st k = Some s \<and> t1 \<le> expiry s \<longrightarrow>
                   map_of (remove_expired_stacks tick st) k = Some s))
       \<and> ((\<forall>i < length st. tick i = now) \<longrightarrow>
            remove_expired_stacks tick st = filter (\<lambda>(k, s). \<not> expiry s < now) st)
       \<and> serve int_of r st = view int_of r (remove_expired_stacks (sweep_clock r) st)"
proof -
  let ?st' = "remove_expired_stacks tick st"
  note eq = remove_expired_stacks_eq [OF assms]
  have sub: "set ?st' \<subseteq> set st"
    using survivor [OF assms] by (metis nth_mem subrelI)
  have "distinct (map fst (map snd (filter (\<lambda>(i, (k, s)). \<not> expiry s < tick i) (enumerate 0 st))))"
    using assms
    by (metis distinct_map_filter map_snd_enumerate map_map)
  then have d': "distinct (map fst ?st')" unfolding eq .
  have kept: "map_of st k = Some s" if "map_of ?st' k = Some s" for k s
    using that sub assms by (meson map_of_SomeD map_of_is_SomeI subsetD)
  have gone: "map_of ?st' k = None"
    if "map_of st k = Some s" "expiry s < t0" "\<forall>i < length st. t0 \<le> tick i" for k s t0
  proof (rule ccontr)
    assume "map_of ?st' k \<noteq> None"
    then obtain s' where s': "map_of ?st' k = Some s'" by auto
    with kept that(1) have "s' = s" by fastforce
    with s' have "(k, s) \<in> set ?st'" by (simp add: map_of_SomeD)
    from survivor [OF assms this] obtain i where "i < length st" "\<not> expiry s < tick i"
      by blast
    with that(2,3) show False by fastforce
  qed
  have late: "t0 \<le> expiry s"
    if "map_of ?st' k = Some s" "\<forall>i < length st. t0 \<le> tick i" for k s t0
  proof -
    from that(1) have "(k, s) \<in> set ?st'" by (simp add: map_of_SomeD)
    from survivor [OF assms this] obtain i where "i < length st" "\<not> expiry s < tick i"
      by blast
    with that(2) show ?thesis by fastforce
  qed
  have stays: "map_of ?st' k = Some s"
    if "map_of st k = Some s" "t1 \<le> expiry s" "\<forall>i < length st. tick i \<le> t1" for k s t1
  proof -
    from that(1) have "(k, s) \<in> set st" by (simp add: map_of_SomeD)
    then obtain i where i: "i < length st" "st ! i = (k, s)" by (auto simp: in_set_conv_nth)
    with that(2,3) have "\<not> expiry s < tick i" by fastforce
    with i have "(i, (k, s)) \<in> set (filter (\<lambda>(i, (k, s)). \<not> expiry s < tick i) (enumerate 0 st))"
      by (auto simp: in_set_enumerate_eq)
    then have "(k, s) \<in> set ?st'" unfolding eq by force
    with d' show ?thesis by simp
  qed
  have const: "?st' = filter (\<lambda>(k, s). \<not> expiry s < now) st"
    if "\<forall>i < length st. tick i = now"
  proof -
    from that have "\<forall>j. 0 \<le> j \<and> j < 0 + length st \<longrightarrow> tick j = now" by simp
    from filter_enumerate_const [where R = "\<lambda>t (k, s). \<not> expiry s < t", OF this]
    show ?thesis unfolding eq by (simp add: case_prod_unfold)
  qed
  have "serve int_of r st = view int_of r (remove_expired_stacks (sweep_clock r) st)"
    by (simp add: serve_def before_request_def)
  with eq kept gone late stays const show ?thesis by blast
qed

theorem sweep_removes_expired_witness:
  "remove_expired_stacks (readings [6, 9])
      [(1, \<lparr>array = [3], expiry = 5\<rparr>), (2, \<lparr>array = [4], expiry = 10\<rparr>)] =
     [(2, \<lparr>array = [4], expiry = 10\<rparr>)]
   \<and> remove_expired_stacks (readings [6])
      [(1, \<lparr>array = [3], expiry = 5\<rparr>), (2, \<lparr>array = [4], expiry = 6\<rparr>)] =
     [(2, \<lparr>array = [4], expiry = 6\<rparr>)]"
  using sweep_removes_expired [of "[(1, \<lparr>array = [3], expiry = 5\<rparr>), (2, \<lparr>array = [4], expiry = 10\<rparr>)]"
      "readings [6, 9]" 6 9 6]
    sweep_removes_expired [of "[(1, \<lparr>array = [3], expiry = 5\<rparr>), (2, \<lparr>array = [4], expiry = 6\<rparr>)]"
      "readings [6]" 6 6 6]
  by (simp add: readings_def)

text \<open>
  Claim C7 as stated fails for every choice of the current time when the clock advances
  during the sweep: with the readings 6 and 9, the entry with expiry 8 is removed and the
  entry with expiry 7, examined first, remains.
\<close>

theorem sweep_single_time_counterexample:
  "remove_expired_stacks (readings [6, 9])
      [(1, \<lparr>array = [], expiry = 7\<rparr>), (2, \<lparr>array = [], expiry = 8\<rparr>)] =
     [(1, \<lparr>array = [], expiry = 7\<rparr>)]"
  by (simp add: remove_expired_stacks_def readings_def AList.delete_eq)

subsection \<open>The number of stacks\<close>

lemma length_update:
  "length (AList.update k v st) = (if map_of st k = None then Suc (length st) else length st)"
  by (induction st) auto

lemma update_fresh: "map_of st k = None \<Longrightarrow> AList.update k v st = st @ [(k, v)]"
  by (induction st) (auto split: if_splits)

lemma length_delete_le: "length (AList.delete k st) \<le> length st"
  by (simp add: AList.delete_eq)

lemma sweep_loop_shrinks:
  "length (sweep_loop tick i items st) \<le> length st
   \<and> (distinct (map fst st) \<longrightarrow> distinct (map fst (sweep_loop tick i items st)))"
proof (induction items arbitrary: st i)
  case Nil
  then show ?case by simp
next
  case (Cons p items)
  obtain k s where p: "p = (k, s)" by (cases p)
  show ?case
  proof (cases "expiry s < tick i")
    case True
    from Cons.IH [where i = "Suc i" and st = "AList.delete k st"] length_delete_le [of k st] True
    show ?thesis by (auto simp add: p AList.distinct_delete)
  next
    case False
    with Cons.IH [where i = "Suc i" and st = st] show ?thesis by (simp add: p)
  qed
qed


lemma decorator_shrinks:
  assumes "\<And>k st. length (snd (func k st)) \<le> length st
              \<and> (distinct (map fst st) \<longrightarrow> distinct (map fst (snd (func k st))))"
  shows "length (snd (require_valid_stack_id int_of func args now st)) \<le> length st
       \<and> (distinct (map fst st) \<longrightarrow>
            distinct (map fst (snd (require_valid_stack_id int_of func args now st))))"
proof (cases "py_int int_of (args ''id'')")
  case None
  then show ?thesis by (simp add: require_valid_stack_id_def)
next
  case (Some k)
  show ?thesis
  proof (cases "map_of st k")
    case None
    with Some show ?thesis by (simp add: require_valid_stack_id_def)
  next
    case present: (Some s)
    define st' where "st' = AList.map_entry k (\<lambda>e. e\<lparr>expiry := now + 60 * 60\<rparr>) st"
    have "require_valid_stack_id int_of func args now st = func k st'"
      unfolding st'_def using Some present refl by (rule decorated)
    moreover have "length st' = length st" and "map fst st' = map fst st"
      unfolding st'_def by (simp_all add: length_map_entry map_fst_map_entry)
    ultimately show ?thesis
      using assms [of k st'] by simp
  qed
qed

lemma bodies_shrink:
  "length (snd (push_body int_of args k st)) \<le> length st
     \<and> (distinct (map fst st) \<longrightarrow> distinct (map fst (snd (push_body int_of args k st))))"
  "length (snd (push_bulk_body int_of args k st)) \<le> length st
     \<and> (distinct (map fst st) \<longrightarrow> distinct (map fst (snd (push_bulk_body int_of args k st))))"
  "length (snd (pop_body k st)) \<le> length st
     \<and> (distinct (map fst st) \<longrightarrow> distinct (map fst (snd (pop_body k st))))"
  "length (snd (pop_bulk_body int_of args k st)) \<le> length st
     \<and> (distinct (map fst st) \<longrightarrow> distinct (map fst (snd (pop_bulk_body int_of args k st))))"
  "length (snd (size_body k st)) \<le> length st
     \<and> (distinct (map fst st) \<longrightarrow> distinct (map fst (snd (size_body k st))))"
  "length (snd (peek_body k st)) \<le> length st
     \<and> (distinct (map fst st) \<longrightarrow> distinct (map fst (snd (peek_body k st))))"
  "length (snd (destroy_body k st)) \<le> length st
     \<and> (distinct (map fst st) \<longrightarrow> distinct (map fst (snd (destroy_body k st))))"
  by (simp_all add: push_body_def push_bulk_body_def pop_body_def pop_bulk_body_def
      size_body_def peek_body_def destroy_body_def set_array_def length_map_entry
      map_fst_map_entry length_delete_le AList.distinct_delete
      split: option.splits prod.splits)

lemma view_shrinks:
  assumes "path r \<noteq> Create"
  shows "length (snd (view int_of r st)) \<le> length st
       \<and> (distinct (map fst st) \<longrightarrow> distinct (map fst (snd (view int_of r st))))"
  using assms
  by (cases "path r")
    (simp_all add: view_def home_def list_stacks_def push_def push_bulk_def pop_def
      pop_bulk_def size_view_def peek_def destroy_def decorator_shrinks bodies_shrink)

lemma create_grows:
  "length (snd (create token now st)) \<le> max (length st) (min MAX_STACKS (Suc (length st)))
   \<and> (distinct (map fst st) \<longrightarrow> distinct (map fst (snd (create token now st))))"
  by (simp add: create_def length_update AList.distinct_update)

text \<open>
  Claim C8. A dictionary with at most \<open>MAX_STACKS\<close> entries has at most \<open>MAX_STACKS\<close>
  entries after any request (the sweep followed by the view of any route), and its keys
  stay distinct, so that its length is the number of stacks. \<^verbatim>\<open>create\<close> answers "Maximum
  number of stacks reached" and changes nothing when there are \<open>MAX_STACKS\<close> entries or
  more; otherwise it answers the identifier and stores under it an empty array with the
  expiry \<open>now + 60 * 60\<close>, as one new entry at the end of the dictionary when the identifier
  is not in use. No other route makes the dictionary longer.
\<close>

theorem store_size_invariant:
  "(length st \<le> MAX_STACKS \<longrightarrow> length (snd (serve int_of r st)) \<le> MAX_STACKS)
   \<and> (distinct (map fst st) \<longrightarrow> distinct (map fst (snd (serve int_of r st))))
   \<and> (MAX_STACKS \<le> length st \<longrightarrow> create token now st = (Inl MaxStacksReached, st))
   \<and> (length st < MAX_STACKS \<longrightarrow>
        create token now st =
          (Inr (Created token), AList.update token \<lparr>array = [], expiry = now + 60 * 60\<rparr> st)
      \<and> map_of (snd (create token now st)) =
          (map_of st)(token \<mapsto> \<lparr>array = [], expiry = now + 60 * 60\<rparr>)
      \<and> (map_of st token = None \<longrightarrow>
           snd (create token now st) = st @ [(token, \<lparr>array = [], expiry = now + 60 * 60\<rparr>)]))
   \<and> (path r \<noteq> Create \<longrightarrow>
        length (snd (view int_of r st)) \<le> length st
      \<and> length (snd (serve int_of r st)) \<le> length st)"
proof -
  define st' where "st' = before_request (sweep_clock r) st"
  have sw: "length st' \<le> length st"
    and dsw: "distinct (map fst st) \<longrightarrow> distinct (map fst st')"
    unfolding st'_def before_request_def remove_expired_stacks_def
    using sweep_loop_shrinks [of "sweep_clock r" 0 st st] by simp_all
  have sv: "serve int_of r st = view int_of r st'"
    by (simp add: serve_def st'_def)
  have v: "length (snd (view int_of r st0)) \<le> length st0
       \<and> (distinct (map fst st0) \<longrightarrow> distinct (map fst (snd (view int_of r st0))))"
    if "path r \<noteq> Create" for st0
    using that by (rule view_shrinks)
  have c: "view int_of r st0 = create (random_id r) (clock r) st0" if "path r = Create" for st0
    using that by (simp add: view_def)
  have inv: "length (snd (serve int_of r st)) \<le> MAX_STACKS" if "length st \<le> MAX_STACKS"
  proof (cases "path r = Create")
    case True
    from create_grows [of "random_id r" "clock r" st'] sw that show ?thesis
      unfolding sv c [OF True] by simp
  next
    case False
    from v [OF False, of st'] sw that show ?thesis
      unfolding sv by simp
  qed
  have dist: "distinct (map fst (snd (serve int_of r st)))" if "distinct (map fst st)"
  proof (cases "path r = Create")
    case True
    from create_grows [of "random_id r" "clock r" st'] dsw that show ?thesis
      unfolding sv c [OF True] by simp
  next
    case False
    from v [OF False, of st'] dsw that show ?thesis
      unfolding sv by simp
  qed
  have full: "create token now st = (Inl MaxStacksReached, st)" if "MAX_STACKS \<le> length st"
    using that by (simp add: create_def)
  have room: "create token now st =
      (Inr (Created token), AList.update token \<lparr>array = [], expiry = now + 60 * 60\<rparr> st)"
    if "length st < MAX_STACKS"
    using that by (simp add: create_def)
  have others: "length (snd (view int_of r st)) \<le> length st
      \<and> length (snd (serve int_of r st)) \<le> length st" if "path r \<noteq> Create"
    using v [OF that, of st] v [OF that, of st'] sw unfolding sv by simp
  show ?thesis
    using inv dist full others
    by (auto simp add: room AList.update_conv' update_fresh simp del: fun_upd_apply)
qed

theorem store_size_invariant_witness:
  "create 5 0 (map (\<lambda>i. (int i, \<lparr>array = [], expiry = 1\<rparr>)) [0..<MAX_STACKS]) =
     (Inl MaxStacksReached, map (\<lambda>i. (int i, \<lparr>array = [], expiry = 1\<rparr>)) [0..<MAX_STACKS])
   \<and> create 5 0 [(7, \<lparr>array = [1], expiry = 1\<rparr>)] =
     (Inr (Created 5), [(7, \<lparr>array = [1], expiry = 1\<rparr>), (5, \<lparr>array = [], expiry = 3600\<rparr>)])
   \<and> length (snd (serve decimal
        \<lparr>path = Destroy, query = [''id'' \<mapsto> ''7''], sweep_clock = readings [0], clock = 0,
         random_id = 5\<rparr> [(7, \<lparr>array = [1], expiry = 1\<rparr>)])) \<le> 1"
  using store_size_invariant [of "map (\<lambda>i. (int i, \<lparr>array = [], expiry = 1\<rparr>)) [0..<MAX_STACKS]"
      decimal "\<lparr>path = Destroy, query = [''id'' \<mapsto> ''7''], sweep_clock = readings [0], clock = 0,
         random_id = 5\<rparr>" 5 0]
    store_size_invariant [of "[(7, \<lparr>array = [1], expiry = 1\<rparr>)]"
      decimal "\<lparr>path = Destroy, query = [''id'' \<mapsto> ''7''], sweep_clock = readings [0], clock = 0,
         random_id = 5\<rparr>" 5 0]
  by (simp add: MAX_STACKS_def del: upt_Suc)

end
